theory Spec2Isabelle
  imports Complex_Main
begin

section \<open>AI Gateway: retry with backoff and fallback (services/gemini.ts)\<close>

text \<open>
  A rejected promise carries an error object.  \<open>retryOperation\<close> reads two of its
  properties: \<open>error.message\<close> (optional chaining, so it may be absent) and
  \<open>error.status\<close>.
\<close>

record js_error =
  message :: "string option"
  status :: "int option"

text \<open>\<open>new Error(msg)\<close>: a message and no status.\<close>

definition Error :: "string \<Rightarrow> js_error" where
  "Error msg = \<lparr>message = Some msg, status = None\<rparr>"

text \<open>\<open>String.prototype.includes\<close>: the second string occurs as a contiguous block.\<close>

fun str_includes :: "string \<Rightarrow> string \<Rightarrow> bool" where
  "str_includes [] sub = (sub = [])"
| "str_includes (c # cs) sub = (take (length sub) (c # cs) = sub \<or> str_includes cs sub)"

text \<open>
  \<^verbatim>\<open>error.message?.includes('unavailable') || error.status === 503 || error.status === 429\<close>
\<close>

definition isUnavailable :: "js_error \<Rightarrow> bool" where
  "isUnavailable error =
     ((case message error of None \<Rightarrow> False | Some m \<Rightarrow> str_includes m ''unavailable'')
      \<or> status error = Some 503 \<or> status error = Some 429)"

text \<open>
  What one call of \<open>retryOperation\<close> does to the outside world, in order: an invocation
  of \<open>operation\<close> (numbered from 0), a \<open>setTimeout\<close> pause of the given number of
  milliseconds, an invocation of \<open>fallbackOperation\<close>.
\<close>

datatype event = Attempt nat | Wait int | FallbackAttempt

text \<open>
  \<open>operation\<close> is a thunk that may answer differently each time it is invoked, so it is
  given by its outcome at the \<open>k\<close>-th invocation (\<open>Inl\<close>: the promise rejects).  The last
  argument counts the invocations made so far; a call from outside passes 0.
  \<open>fallbackOperation\<close> is optional; when present it is given by the outcome of invoking it.
  \<open>retries\<close> and \<open>delay\<close> are JavaScript numbers, here integers.  The function returns
  the outcome of the returned promise together with the events in the order they happen.
\<close>

function retryOperation ::
  "(nat \<Rightarrow> js_error + 'a) \<Rightarrow> int \<Rightarrow> int \<Rightarrow> (js_error + 'a) option \<Rightarrow> nat
     \<Rightarrow> (js_error + 'a) \<times> event list" where
  "retryOperation operation retries delay fallbackOperation k =
     (case operation k of
        Inr v \<Rightarrow> (Inr v, [Attempt k])
      | Inl error \<Rightarrow>
          if retries > 0 \<and> isUnavailable error then
            (case retryOperation operation (retries - 1) (delay * 2) fallbackOperation (Suc k) of
               (r, tr) \<Rightarrow> (r, Attempt k # Wait delay # tr))
          else
            (case fallbackOperation of
               Some fb \<Rightarrow>
                 if isUnavailable error \<or> retries = 0
                 then (fb, [Attempt k, FallbackAttempt])
                 else (Inl error, [Attempt k])
             | None \<Rightarrow> (Inl error, [Attempt k])))"
  by pat_completeness auto
termination
  by (relation "measure (\<lambda>(operation, retries, delay, fallbackOperation, k). nat retries)") auto

declare retryOperation.simps [simp del]

text \<open>Readers of an event sequence.\<close>

fun attempts :: "event list \<Rightarrow> nat list" where
  "attempts [] = []"
| "attempts (Attempt k # evs) = k # attempts evs"
| "attempts (ev # evs) = attempts evs"

fun waits :: "event list \<Rightarrow> int list" where
  "waits [] = []"
| "waits (Wait d # evs) = d # waits evs"
| "waits (ev # evs) = waits evs"

fun fallbacks :: "event list \<Rightarrow> nat" where
  "fallbacks [] = 0"
| "fallbacks (FallbackAttempt # evs) = Suc (fallbacks evs)"
| "fallbacks (ev # evs) = fallbacks evs"

text \<open>An operation every invocation of which rejects with a transient error.\<close>

definition always_transient :: "(nat \<Rightarrow> js_error + 'a) \<Rightarrow> bool" where
  "always_transient operation =
     (\<forall>k. case operation k of Inl e \<Rightarrow> isUnavailable e | Inr v \<Rightarrow> False)"


section \<open>Messages and sessions (types.ts)\<close>

datatype MessageRole = USER | MODEL | SYSTEM

record file_data =
  mimeType :: string
  data :: string
  name :: string

text \<open>
  \<open>ChatMessage\<close>; the field \<open>id\<close> is \<open>mid\<close> here and \<open>image\<close> is \<open>image'\<close>.  An optional
  field that is absent is \<open>None\<close>.  A grounding citation is a pair of title and URI.
\<close>

record ChatMessage =
  mid :: string
  role :: MessageRole
  content :: string
  image' :: "string option"
  fileData :: "file_data option"
  isThinking :: "bool option"
  groundingUrls :: "(string \<times> string) list option"

text \<open>\<open>PromptSession\<close>; the field \<open>id\<close> is \<open>sid\<close> here.\<close>

record PromptSession =
  sid :: string
  title :: string
  timestamp :: int
  dateStr :: string
  messages :: "ChatMessage list"
  isDeleted :: "bool option"


section \<open>Session store of the prompt-engineering sessions (App.tsx)\<close>

text \<open>
  Each handler passes an updater to \<open>setPromptSessions\<close>; the updater maps the previous
  list \<open>prev\<close> to the new one and writes the same list to local storage.  The functions
  below are these updaters.
\<close>

text \<open>\<open>Array.prototype.findIndex\<close>; \<open>None\<close> stands for the result \<open>-1\<close>.\<close>

fun findIndex :: "('a \<Rightarrow> bool) \<Rightarrow> 'a list \<Rightarrow> nat option" where
  "findIndex p [] = None"
| "findIndex p (x # xs) = (if p x then Some 0 else map_option Suc (findIndex p xs))"

definition handleSavePromptSession :: "PromptSession \<Rightarrow> PromptSession list \<Rightarrow> PromptSession list" where
  "handleSavePromptSession session prev =
     (case findIndex (\<lambda>s. sid s = sid session) prev of
        Some idx \<Rightarrow> prev[idx := session\<lparr>isDeleted := isDeleted (prev ! idx)\<rparr>]
      | None \<Rightarrow> prev @ [session])"

definition handleDeletePromptSession :: "string \<Rightarrow> PromptSession list \<Rightarrow> PromptSession list" where
  "handleDeletePromptSession i prev =
     map (\<lambda>s. if sid s = i then s\<lparr>isDeleted := Some True\<rparr> else s) prev"

definition handleRestorePromptSession :: "string \<Rightarrow> PromptSession list \<Rightarrow> PromptSession list" where
  "handleRestorePromptSession i prev =
     map (\<lambda>s. if sid s = i then s\<lparr>isDeleted := Some False\<rparr> else s) prev"

text \<open>
  The first argument is the answer of \<open>window.confirm\<close>.  \<open>!s.isDeleted\<close> holds for a
  session whose flag is absent or false.
\<close>

definition handleEmptyRecycleBin :: "bool \<Rightarrow> PromptSession list \<Rightarrow> PromptSession list" where
  "handleEmptyRecycleBin confirmed prev =
     (if confirmed then filter (\<lambda>s. isDeleted s \<noteq> Some True) prev else prev)"


section \<open>Conversational turn (components/ChatSession.tsx)\<close>

text \<open>
  The component state that \<open>handleSend\<close> and \<open>handleRegenerate\<close> read; \<open>messages_st\<close> is
  the state variable \<open>messages\<close>.
\<close>

record chat_state =
  messages_st :: "ChatMessage list"
  input :: string
  attachment :: "file_data option"
  imagePreview :: "string option"
  isLoading :: bool
  isAnalyzing :: bool
  useThinking :: bool
  useSearch :: bool

text \<open>An entry of the history handed to the gateway; a part is given by its text.\<close>

record history_entry =
  h_role :: MessageRole
  parts :: "string list"

record chat_options =
  o_useThinking :: bool
  o_useSearch :: bool
  o_fileData :: "file_data option"

text \<open>The three arguments of one call \<open>sendChatMessage(history, message, options)\<close>.\<close>

record outbound =
  history :: "history_entry list"
  new_message :: string
  options :: chat_options

text \<open>
  \<open>String.prototype.trim\<close> on the characters of type \<open>char\<close>: tab, line feed, vertical
  tab, form feed, carriage return and space are white space.
\<close>

definition js_whitespace :: "char \<Rightarrow> bool" where
  "js_whitespace c = (c \<in> set [CHR 0x09, CHR 0x0A, CHR 0x0B, CHR 0x0C, CHR 0x0D, CHR 0x20])"

definition trim :: "string \<Rightarrow> string" where
  "trim s = rev (dropWhile js_whitespace (rev (dropWhile js_whitespace s)))"

text \<open>\<open>xs.slice(-n)\<close> for a positive \<open>n\<close>: the last \<open>n\<close> elements, or all of a shorter list.\<close>

definition slice_last :: "nat \<Rightarrow> 'a list \<Rightarrow> 'a list" where
  "slice_last n xs = drop (length xs - n) xs"

text \<open>
  The template literal of the injection, up to the text of the first message; the
  argument is the text \<open>JSON.stringify(profile)\<close>.
\<close>

definition profile_context :: "string \<Rightarrow> string" where
  "profile_context profileJson =
     ''[System Context: Current User Profile (Values/Traits): '' @ profileJson @ '']''
       @ [CHR 0x0A, CHR 0x0A]"

text \<open>\<^verbatim>\<open>if (history.length > 0) history[0].parts[0].text = `...${history[0].parts[0].text}`\<close>\<close>

fun inject_profile :: "string \<Rightarrow> history_entry list \<Rightarrow> history_entry list" where
  "inject_profile profileJson [] = []"
| "inject_profile profileJson (h # hs) =
     h\<lparr>parts := (case parts h of [] \<Rightarrow> [] | t # ts \<Rightarrow> (profile_context profileJson @ t) # ts)\<rparr> # hs"

text \<open>
  \<open>handleSend\<close> from its entry to the call of \<open>sendChatMessage\<close>.  \<open>now\<close> is
  \<open>Date.now().toString()\<close> and \<open>profileJson\<close> is \<open>JSON.stringify(profile)\<close>.  An absent
  argument \<open>retryContent\<close> is \<open>None\<close>; \<open>retryAttachment\<close> is absent (\<open>None\<close>), \<open>null\<close>
  (\<open>Some None\<close>) or an attachment.  The result is \<open>None\<close> when the guard returns at once, and
  otherwise the component state when the call is made together with the arguments of
  the call.  (\<open>handleSave\<close> hands \<open>newMessages\<close> to the session store; it has no part in
  the request.)
\<close>

definition handleSend ::
  "string \<Rightarrow> string \<Rightarrow> string option \<Rightarrow> file_data option option \<Rightarrow> chat_state
     \<Rightarrow> (chat_state \<times> outbound) option" where
  "handleSend now profileJson retryContent retryAttachment st =
     (let contentToSend = (case retryContent of Some c \<Rightarrow> c | None \<Rightarrow> input st);
          attachmentToSend = (case retryAttachment of Some a \<Rightarrow> a | None \<Rightarrow> attachment st)
      in
        if (trim contentToSend = [] \<and> attachmentToSend = None) \<or> isLoading st \<or> isAnalyzing st
        then None
        else
          let userMsg = \<lparr>mid = now, role = USER, content = contentToSend,
                         image' = (case imagePreview st of
                                     None \<Rightarrow> None
                                   | Some p \<Rightarrow> if p = [] then None else Some p),
                         fileData = attachmentToSend,
                         isThinking = None, groundingUrls = None\<rparr>;
              newMessages = (if retryContent = None then messages_st st @ [userMsg]
                             else messages_st st);
              st1 = (if retryContent = None
                     then st\<lparr>messages_st := newMessages, input := [],
                             attachment := None, imagePreview := None\<rparr>
                     else st);
              recentMessages = slice_last 20 newMessages;
              history = inject_profile profileJson
                          (map (\<lambda>m. \<lparr>h_role = role m, parts = [content m]\<rparr>)
                             (filter (\<lambda>m. role m \<noteq> SYSTEM) recentMessages))
          in Some (st1\<lparr>isLoading := True\<rparr>,
                   \<lparr>history = history, new_message = contentToSend,
                    options = \<lparr>o_useThinking = useThinking st, o_useSearch = useSearch st,
                               o_fileData = attachmentToSend\<rparr>\<rparr>))"

text \<open>
  \<open>handleRegenerate\<close>.  It calls \<open>setMessages(msgsToKeep)\<close> and then \<open>handleSend\<close> in the
  same render, so \<open>handleSend\<close> still reads the list \<open>messages\<close> of that render, while
  the state it leaves behind holds \<open>msgsToKeep\<close>.  The result is \<open>None\<close> when no request is
  made.
\<close>

definition handleRegenerate ::
  "string \<Rightarrow> string \<Rightarrow> chat_state \<Rightarrow> (chat_state \<times> outbound) option" where
  "handleRegenerate now profileJson st =
     (if messages_st st = [] \<or> isLoading st then None
      else
        let lastMsg = last (messages_st st);
            msgsToKeep = (if role lastMsg = MODEL then butlast (messages_st st)
                          else messages_st st);
            userMsgToRetry = (if role lastMsg = MODEL
                              then (if msgsToKeep = [] then None else Some (last msgsToKeep))
                              else if role lastMsg = USER then Some lastMsg
                              else None)
        in case userMsgToRetry of
             None \<Rightarrow> None
           | Some u \<Rightarrow>
               if role u = USER
               then map_option (\<lambda>(st1, req). (st1\<lparr>messages_st := msgsToKeep\<rparr>, req))
                      (handleSend now profileJson (Some (content u))
                         (map_option Some (fileData u)) st)
               else None)"

text \<open>
  The history as the specification words it: system messages are dropped first, then
  the last 20 of the remainder are taken.
\<close>

definition history_by_spec :: "ChatMessage list \<Rightarrow> history_entry list" where
  "history_by_spec msgs =
     map (\<lambda>m. \<lparr>h_role = role m, parts = [content m]\<rparr>)
       (slice_last 20 (filter (\<lambda>m. role m \<noteq> SYSTEM) msgs))"


section \<open>Live audio session (component LiveSession)\<close>

text \<open>
  Times are values of an ordered type \<open>'t\<close> with an addition and a zero: the seconds of
  the audio clock.  Nothing else is assumed about the addition.
\<close>

datatype speaker = Speaker_user | Speaker_model

text \<open>
  One call \<open>source.start(when)\<close> on the output context: the buffer source node (numbered
  in the order of creation), the value of \<open>ctx.currentTime\<close> read for this frame, the
  start time passed, and \<open>audioBuffer.duration\<close>.
\<close>

record 't scheduled =
  node :: nat
  clock :: 't
  start :: 't
  duration :: 't

text \<open>
  What \<open>onmessage\<close> finds as the audio of a server message.  The expression
  \<^verbatim>\<open>content?.modelTurn?.parts[0]?.inlineData?.data\<close> is undefined or empty (\<open>NoAudio\<close>), or it
  throws because \<open>modelTurn\<close> is there and has no \<open>parts\<close> (\<open>NoParts\<close>), or it gives
  data; then \<open>decodeAudioData\<close> rejects (\<open>Undecodable\<close>: the text is not base64 or
  holds an odd number of bytes) or returns a buffer, given by its duration.
\<close>

datatype 't model_audio = NoAudio | NoParts | Undecodable | Frame 't

text \<open>
  A server message as \<open>onmessage\<close> reads it: the audio, the two transcription texts,
  and the flags \<open>turnComplete\<close> and \<open>interrupted\<close>.
\<close>

record 't server_message =
  audio :: "'t model_audio"
  inputTranscription :: "string option"
  outputTranscription :: "string option"
  turnComplete :: bool
  interrupted :: bool

text \<open>
  The refs of the component.  \<open>audioContext\<close> tells whether \<open>audioContextRef.current\<close>
  is set; \<open>sources\<close> is the set \<open>sourcesRef.current\<close> in insertion order.  \<open>started\<close> and
  \<open>stopped\<close> record the calls of \<open>start\<close> and \<open>stop\<close> made on buffer sources of the
  current output context, and \<open>created\<close> counts the buffer sources created.
\<close>

record 't live_state =
  activeRef :: bool
  audioContext :: bool
  nextStartTime :: 't
  sources :: "nat list"
  started :: "'t scheduled list"
  stopped :: "nat list"
  created :: nat
  startTime :: int
  userTextBuffer :: string
  modelTextBuffer :: string
  currentTranscript :: "(speaker \<times> string) list"

text \<open>
  \<open>startSession\<close> up to the call of \<open>ai.live.connect\<close>: \<open>nowMs\<close> is \<open>Date.now()\<close> and
  \<open>ctxTime\<close> is \<open>currentTime\<close> of the output context just created.
\<close>

definition startSession :: "int \<Rightarrow> 't \<Rightarrow> 't live_state \<Rightarrow> 't live_state" where
  "startSession nowMs ctxTime st =
     st\<lparr>activeRef := True, currentTranscript := [], startTime := nowMs,
        audioContext := True, nextStartTime := ctxTime, started := [], stopped := []\<rparr>"

text \<open>
  The callback \<open>onmessage\<close>; \<open>now\<close> is \<open>ctx.currentTime\<close> when the message is handled.
  The result is the state of the refs when the callback ends, and the exception with which
  it ends if it throws: reading \<open>parts[0]\<close> of a model turn without parts throws before
  anything is done, and a rejection of \<open>decodeAudioData\<close> comes after \<open>nextStartTime\<close>
  was raised; either way the transcription, the turn end and the interruption of the
  same message are not handled.  The callback is one step: what follows
  \<open>await decodeAudioData\<close> runs before the next message is handled.
\<close>

definition onmessage ::
  "'t \<Rightarrow> 't server_message \<Rightarrow> ('t::{linorder,plus,zero}) live_state
     \<Rightarrow> 't live_state \<times> js_error option" where
  "onmessage now msg st =
     (case (case audio msg of
              NoParts \<Rightarrow> Inl (st, Error ''Cannot read properties of undefined'')
            | NoAudio \<Rightarrow> Inr st
            | Undecodable \<Rightarrow>
                if audioContext st
                then Inl (st\<lparr>nextStartTime := max (nextStartTime st) now\<rparr>,
                          Error ''The audio data cannot be decoded'')
                else Inr st
            | Frame d \<Rightarrow>
                if audioContext st then
                  let next = max (nextStartTime st) now
                  in Inr (st\<lparr>started := started st
                                 @ [\<lparr>node = created st, clock = now, start = next, duration = d\<rparr>],
                             sources := sources st @ [created st],
                             created := Suc (created st),
                             nextStartTime := next + d\<rparr>)
                else Inr st) of
        Inl (st', e) \<Rightarrow> (st', Some e)
      | Inr st1 \<Rightarrow>
          (let st2 = (case inputTranscription msg of
                        None \<Rightarrow> st1
                      | Some t \<Rightarrow> st1\<lparr>userTextBuffer := userTextBuffer st1 @ t\<rparr>);
               st3 = (case outputTranscription msg of
                        None \<Rightarrow> st2
                      | Some t \<Rightarrow> st2\<lparr>modelTextBuffer := modelTextBuffer st2 @ t\<rparr>);
               st4 = (if turnComplete msg then
                        let a = (if userTextBuffer st3 \<noteq> []
                                 then st3\<lparr>currentTranscript :=
                                            currentTranscript st3
                                              @ [(Speaker_user, userTextBuffer st3)],
                                          userTextBuffer := []\<rparr>
                                 else st3)
                        in (if modelTextBuffer a \<noteq> []
                            then a\<lparr>currentTranscript :=
                                      currentTranscript a @ [(Speaker_model, modelTextBuffer a)],
                                    modelTextBuffer := []\<rparr>
                            else a)
                      else st3)
           in (if interrupted msg
               then st4\<lparr>stopped := stopped st4 @ sources st4, sources := [],
                        nextStartTime := 0\<rparr>
               else st4,
               None)))"

text \<open>The listener for \<open>ended\<close> of a buffer source: the node leaves the set.\<close>

definition on_ended :: "nat \<Rightarrow> 't live_state \<Rightarrow> 't live_state" where
  "on_ended n st = st\<lparr>sources := filter (\<lambda>s. s \<noteq> n) (sources st)\<rparr>"

text \<open>
  What reaches an open session, in order of arrival.  Nothing observes the promise that
  \<open>onmessage\<close> returns: after a message the session goes on from the state the callback
  left.
\<close>

datatype 't live_event = Message 't "'t server_message" | Ended nat

fun live_step :: "'t live_event \<Rightarrow> ('t::{linorder,plus,zero}) live_state \<Rightarrow> 't live_state" where
  "live_step (Message now msg) st = fst (onmessage now msg st)"
| "live_step (Ended n) st = on_ended n st"

fun live_run :: "'t live_event list \<Rightarrow> ('t::{linorder,plus,zero}) live_state \<Rightarrow> 't live_state" where
  "live_run [] st = st"
| "live_run (ev # evs) st = live_run evs (live_step ev st)"

text \<open>No message of the sequence carries the interruption flag.\<close>

fun uninterrupted :: "'t live_event list \<Rightarrow> bool" where
  "uninterrupted [] = True"
| "uninterrupted (Message now msg # evs) = (\<not> interrupted msg \<and> uninterrupted evs)"
| "uninterrupted (Ended n # evs) = uninterrupted evs"

text \<open>The clock readings of the messages of a sequence, in order.\<close>

fun clocks :: "'t live_event list \<Rightarrow> 't list" where
  "clocks [] = []"
| "clocks (Message now msg # evs) = now # clocks evs"
| "clocks (Ended n # evs) = clocks evs"

text \<open>
  Each scheduled frame after the first starts no earlier than its clock reading and no
  earlier than the end of the frame before it.
\<close>

fun no_overlap :: "('t::{linorder,plus}) scheduled list \<Rightarrow> bool" where
  "no_overlap [] = True"
| "no_overlap [f] = True"
| "no_overlap (f # g # fs) =
     (start f + duration f \<le> start g \<and> clock g \<le> start g \<and> no_overlap (g # fs))"

text \<open>
  Each scheduled frame after the first starts at the later of its clock reading and the
  end of the frame before it.
\<close>

fun back_to_back :: "('t::{linorder,plus}) scheduled list \<Rightarrow> bool" where
  "back_to_back [] = True"
| "back_to_back [f] = True"
| "back_to_back (f # g # fs) =
     (start g = max (start f + duration f) (clock g) \<and> back_to_back (g # fs))"

text \<open>
  Two invariants of a stretch of a session without interruption, about the frames
  scheduled since the stretch began, when \<open>k\<close> frames had been scheduled and
  \<open>nextStartTime\<close> was \<open>t0\<close>.  The first: the frames do not overlap and \<open>nextStartTime\<close>
  is no earlier than the end of the last one.  The second, for clock readings that never
  decrease, where \<open>rest\<close> are the events still to come: the frames are back to back, the
  first one starts at the later of \<open>t0\<close> and its clock reading, and \<open>nextStartTime\<close> lies
  between the end of the last frame and the later of that end and any clock reading to
  come.
\<close>

definition frames_since :: "nat \<Rightarrow> 't live_state \<Rightarrow> 't scheduled list" where
  "frames_since k st = drop k (started st)"

definition overlap_inv :: "nat \<Rightarrow> ('t::{linorder,plus,zero}) live_state \<Rightarrow> bool" where
  "overlap_inv k st =
     (k \<le> length (started st)
      \<and> no_overlap (frames_since k st)
      \<and> (frames_since k st \<noteq> [] \<longrightarrow>
            start (last (frames_since k st)) + duration (last (frames_since k st))
              \<le> nextStartTime st))"

definition sched_inv ::
  "nat \<Rightarrow> 't \<Rightarrow> 't live_event list \<Rightarrow> ('t::{linorder,plus,zero}) live_state \<Rightarrow> bool" where
  "sched_inv k t0 rest st =
     (let fs = frames_since k st;
          base = (if fs = [] then t0 else start (last fs) + duration (last fs))
      in k \<le> length (started st)
         \<and> back_to_back fs
         \<and> base \<le> nextStartTime st
         \<and> (\<forall>t \<in> set (clocks rest). nextStartTime st \<le> max base t)
         \<and> (fs \<noteq> [] \<longrightarrow> start (hd fs) = max t0 (clock (hd fs))))"


section \<open>Profiles as parsed JSON (Dashboard import, App start-up, analyzeProfile)\<close>

text \<open>
  A value as \<open>JSON.parse\<close> returns it.  An object is given by the list of its own
  properties, read with \<open>map_of\<close>.
\<close>

datatype json =
    JNull
  | JBool bool
  | JNum rat
  | JStr string
  | JArr "json list"
  | JObj "(string \<times> json) list"

text \<open>
  A text that is handed to \<open>JSON.parse\<close> is given by what \<open>JSON.parse\<close> makes of it:
  the exception it throws or the value it returns.
\<close>

type_synonym json_text = "js_error + json"

text \<open>The truth value JavaScript gives a parsed value, as in \<open>v || d\<close>.\<close>

fun truthy :: "json \<Rightarrow> bool" where
  "truthy JNull = False"
| "truthy (JBool b) = b"
| "truthy (JNum n) = (n \<noteq> 0)"
| "truthy (JStr s) = (s \<noteq> [])"
| "truthy (JArr xs) = True"
| "truthy (JObj kvs) = True"

text \<open>
  \<open>json.k\<close> for a parsed value other than \<open>null\<close> and a property name \<open>k\<close> of a profile:
  \<open>None\<close> stands for a result that is no JSON value, which is \<open>undefined\<close> or, for an array
  and the name \<open>values\<close>, a method of the prototype.
\<close>

definition get_prop :: "json \<Rightarrow> string \<Rightarrow> json option" where
  "get_prop json k = (case json of JObj kvs \<Rightarrow> map_of kvs k | _ \<Rightarrow> None)"

text \<open>\<^verbatim>\<open>Array.isArray(json.k) ? json.k : []\<close>\<close>

definition arrayOrEmpty :: "json \<Rightarrow> string \<Rightarrow> json" where
  "arrayOrEmpty json k = (case get_prop json k of Some (JArr xs) \<Rightarrow> JArr xs | _ \<Rightarrow> JArr [])"

text \<open>
  The object \<open>sanitizedProfile\<close> that \<open>handleFileChange\<close> of the dashboard builds from the
  parsed file; \<open>now\<close> is \<open>new Date().toLocaleString()\<close>.  Reading a property of \<open>null\<close>
  throws.
\<close>

definition sanitizedProfile :: "string \<Rightarrow> json \<Rightarrow> js_error + json" where
  "sanitizedProfile now json =
     (if json = JNull then Inl (Error ''Cannot read properties of null'')
      else Inr (JObj
        [(''values'', arrayOrEmpty json ''values''),
         (''personalityTraits'', arrayOrEmpty json ''personalityTraits''),
         (''mentalModels'', arrayOrEmpty json ''mentalModels''),
         (''workHabits'', arrayOrEmpty json ''workHabits''),
         (''decisionPrinciples'', arrayOrEmpty json ''decisionPrinciples''),
         (''interests'', arrayOrEmpty json ''interests''),
         (''lastUpdated'', (case get_prop json ''lastUpdated'' of
                              Some v \<Rightarrow> if truthy v then v else JStr now
                            | None \<Rightarrow> JStr now))]))"

text \<open>
  \<open>handleFileChange\<close> of the dashboard: the text of the file, the clock and the answer of
  \<open>window.confirm\<close> give the profile handed to \<open>onImportProfile\<close>, if any.
\<close>

definition handleFileChange :: "json_text \<Rightarrow> string \<Rightarrow> bool \<Rightarrow> json option" where
  "handleFileChange fileText now confirmLoad =
     (case fileText of
        Inl e \<Rightarrow> None
      | Inr json \<Rightarrow>
          (case sanitizedProfile now json of
             Inl e \<Rightarrow> None
           | Inr p \<Rightarrow> if confirmLoad then Some p else None))"

definition INITIAL_PROFILE :: json where
  "INITIAL_PROFILE = JObj
     [(''values'', JArr []), (''personalityTraits'', JArr []), (''mentalModels'', JArr []),
      (''workHabits'', JArr []), (''decisionPrinciples'', JArr []), (''interests'', JArr []),
      (''lastUpdated'', JStr [])]"

text \<open>
  The profile part of the start-up effect of \<open>App\<close>:
  \<^verbatim>\<open>if (savedProfile) { try { setProfile(JSON.parse(savedProfile)); } catch (e) {...} }\<close>.
  \<open>savedProfile\<close> is \<open>None\<close> when \<open>localStorage.getItem\<close> returns \<open>null\<close> or the empty
  string; the second argument is the state \<open>profile\<close> before, the result the state after.
\<close>

definition loadProfile :: "json_text option \<Rightarrow> json \<Rightarrow> json" where
  "loadProfile savedProfile profile =
     (case savedProfile of
        None \<Rightarrow> profile
      | Some text \<Rightarrow> (case text of Inl e \<Rightarrow> profile | Inr json \<Rightarrow> json))"

text \<open>
  \<open>runAnalysis\<close> inside \<open>analyzeProfile\<close>.  Its argument is the answer of
  \<open>ai.models.generateContent\<close>: the call rejects (\<open>Inl\<close>), or it returns a response whose
  \<open>text\<close> is absent or empty (\<open>Inr None\<close>) or a text.
\<close>

definition runAnalysis :: "js_error + json_text option \<Rightarrow> js_error + json" where
  "runAnalysis reply =
     (case reply of
        Inl e \<Rightarrow> Inl e
      | Inr text \<Rightarrow>
          (case text of
             None \<Rightarrow> Inl (Error ''No analysis generated'')
           | Some t \<Rightarrow> t))"

text \<open>
  \<open>analyzeProfile\<close>: \<open>getAI\<close> throws when no API key is stored (the message, which is not
  ASCII after its first words, is cut short here); then the Flash model is tried with
  2 retries and a first pause of 1500 ms, and the Pro model is the fallback.  \<open>flash k\<close> is
  the answer to the \<open>k\<close>-th request to the Flash model, \<open>pro\<close> the answer of the Pro
  model.  The result is the outcome of the returned promise and the trace of
  \<open>retryOperation\<close>.
\<close>

definition analyzeProfile ::
  "string option \<Rightarrow> (nat \<Rightarrow> js_error + json_text option) \<Rightarrow> (js_error + json_text option)
     \<Rightarrow> (js_error + json) \<times> event list" where
  "analyzeProfile apiKey flash pro =
     (if apiKey = None \<or> apiKey = Some [] then (Inl (Error ''API Key''), [])
      else retryOperation (\<lambda>k. runAnalysis (flash k)) 2 1500 (Some (runAnalysis pro)) 0)"

text \<open>The six category fields of a profile, and the shape of a profile: each is a list.\<close>

definition categories :: "string list" where
  "categories = [''values'', ''personalityTraits'', ''mentalModels'', ''workHabits'',
                 ''decisionPrinciples'', ''interests'']"

definition is_list :: "json option \<Rightarrow> bool" where
  "is_list v = (case v of Some (JArr xs) \<Rightarrow> True | _ \<Rightarrow> False)"

definition six_lists :: "json \<Rightarrow> bool" where
  "six_lists p = list_all (\<lambda>k. is_list (get_prop p k)) categories"


section \<open>Profile objects, decision records and their sharing (App, Dashboard, DecisionSimulator)\<close>


text \<open>
  In the running program a profile is an object whose category fields refer to array
  objects, and two profile objects may refer to the same array (an object spread copies
  the references).  Objects and arrays live in a store and are named by addresses; an
  allocation takes the next free address.
\<close>

record profile_obj =
  values_at :: nat
  personalityTraits_at :: nat
  mentalModels_at :: nat
  workHabits_at :: nat
  decisionPrinciples_at :: nat
  interests_at :: nat
  lastUpdated_of :: string

record store =
  arrays :: "nat \<Rightarrow> string list"
  objects :: "nat \<Rightarrow> profile_obj"
  next_array :: nat
  next_object :: nat



text \<open>The six keys of a profile that name a category.\<close>

datatype category =
  Values | PersonalityTraits | MentalModels | WorkHabits | DecisionPrinciples | Interests

fun field_at :: "category \<Rightarrow> profile_obj \<Rightarrow> nat" where
  "field_at Values p = values_at p"
| "field_at PersonalityTraits p = personalityTraits_at p"
| "field_at MentalModels p = mentalModels_at p"
| "field_at WorkHabits p = workHabits_at p"
| "field_at DecisionPrinciples p = decisionPrinciples_at p"
| "field_at Interests p = interests_at p"




text \<open>
  \<open>DecisionRecord\<close>; \<open>id\<close> is \<open>did\<close> and \<open>timestamp\<close> is \<open>made_at\<close> here.  An expert opinion
  is a triple of role, opinion and style.  \<open>contextProfile\<close> refers to a profile object.
\<close>

record DecisionRecord =
  did :: string
  made_at :: string
  question :: string
  decision :: string
  expertOpinions :: "(string \<times> string \<times> string) list option"
  contextProfile :: nat

text \<open>The state of \<open>App\<close> that matters here: \<open>profile\<close> refers to the current profile object.\<close>

record app_state =
  heap :: store
  profile :: nat
  decisions :: "DecisionRecord list"

















section \<open>Example data\<close>

text \<open>A store of two prompt sessions.\<close>

definition session_a :: PromptSession where
  "session_a = \<lparr>sid = ''a'', title = ''first'', timestamp = 1, dateStr = ''d1'',
     messages = [\<lparr>mid = ''m1'', role = USER, content = ''hello'', image' = None,
                  fileData = None, isThinking = None, groundingUrls = None\<rparr>],
     isDeleted = Some False\<rparr>"

definition session_b :: PromptSession where
  "session_b = \<lparr>sid = ''b'', title = ''second'', timestamp = 2, dateStr = ''d2'',
     messages = [], isDeleted = None\<rparr>"

text \<open>Chat sessions about to send the text \<open>hi\<close>, and one whose last message is a reply.\<close>

definition user_msg :: "string \<Rightarrow> ChatMessage" where
  "user_msg c = \<lparr>mid = c, role = USER, content = c, image' = None,
                  fileData = None, isThinking = None, groundingUrls = None\<rparr>"

definition system_msg :: "string \<Rightarrow> ChatMessage" where
  "system_msg c = \<lparr>mid = c, role = SYSTEM, content = c, image' = None,
                    fileData = None, isThinking = None, groundingUrls = None\<rparr>"

definition long_session :: chat_state where
  "long_session =
     \<lparr>messages_st = replicate 10 (user_msg ''u'') @ [system_msg ''s'']
                       @ replicate 10 (user_msg ''v''),
      input = ''hi'', attachment = None, imagePreview = None,
      isLoading = False, isAnalyzing = False, useThinking = False, useSearch = False\<rparr>"

definition plain_session :: chat_state where
  "plain_session =
     \<lparr>messages_st = system_msg ''welcome'' # replicate 21 (user_msg ''u''),
      input = ''hi'', attachment = None, imagePreview = None,
      isLoading = False, isAnalyzing = False, useThinking = False, useSearch = False\<rparr>"

definition fresh_session :: chat_state where
  "fresh_session =
     \<lparr>messages_st = [system_msg ''welcome''],
      input = ''hi'', attachment = None, imagePreview = None,
      isLoading = False, isAnalyzing = False, useThinking = False, useSearch = False\<rparr>"

definition answered_session :: chat_state where
  "answered_session =
     \<lparr>messages_st = [system_msg ''welcome'', user_msg ''q'', (user_msg ''a'')\<lparr>role := MODEL\<rparr>],
      input = [], attachment = None, imagePreview = None,
      isLoading = False, isAnalyzing = False, useThinking = False, useSearch = False\<rparr>"

text \<open>A live session that receives three audio frames, and an interruption signal.\<close>

definition idle_live :: "real live_state" where
  "idle_live = \<lparr>activeRef = False, audioContext = False, nextStartTime = 0, sources = [],
                 started = [], stopped = [], created = 0, startTime = 0,
                 userTextBuffer = [], modelTextBuffer = [], currentTranscript = []\<rparr>"

definition audio_frame :: "real \<Rightarrow> real server_message" where
  "audio_frame d = \<lparr>audio = Frame d, inputTranscription = None, outputTranscription = None,
                     turnComplete = False, interrupted = False\<rparr>"

definition barge_in_signal :: "real server_message" where
  "barge_in_signal = \<lparr>audio = NoAudio, inputTranscription = None, outputTranscription = None,
                       turnComplete = False, interrupted = True\<rparr>"

definition three_frames :: "real live_event list" where
  "three_frames = [Message 1 (audio_frame 5), Message 2 (audio_frame 5), Ended 0,
                   Message 20 (audio_frame 3)]"

text \<open>
  A barge-in between two frames; a stretch after a barge-in, with a message whose
  audio does not decode between two frames; and an interruption signal in a message
  whose model turn has no parts, or whose audio does not decode.
\<close>

definition interrupted_frames :: "real live_event list" where
  "interrupted_frames = [Message 1 (audio_frame 5), Message 2 barge_in_signal,
                         Message 3 (audio_frame 5)]"

definition bad_frame :: "real server_message" where
  "bad_frame = \<lparr>audio = Undecodable, inputTranscription = None, outputTranscription = None,
                 turnComplete = False, interrupted = False\<rparr>"

definition before_recovery :: "real live_event list" where
  "before_recovery = [Message 1 (audio_frame 5), Message 2 barge_in_signal]"

definition after_recovery :: "real live_event list" where
  "after_recovery = [Message 3 (audio_frame 5), Message 4 bad_frame, Message 5 (audio_frame 2)]"

definition barge_in_with_bad_frame :: "real server_message" where
  "barge_in_with_bad_frame =
     \<lparr>audio = Undecodable, inputTranscription = None, outputTranscription = None,
      turnComplete = False, interrupted = True\<rparr>"

definition barge_in_without_parts :: "real server_message" where
  "barge_in_without_parts =
     \<lparr>audio = NoParts, inputTranscription = None, outputTranscription = None,
      turnComplete = False, interrupted = True\<rparr>"









section \<open>Verified properties\<close>

subsection \<open>Retry bound\<close>

lemma upt_0_Suc: "[0..<Suc n] = 0 # map Suc [0..<n]"
  by (simp only: upt_conv_Cons[OF zero_less_Suc] map_Suc_upt)

lemma always_transientD:
  assumes "always_transient operation"
  obtains e where "operation k = Inl e" "isUnavailable e"
proof (cases "operation k")
  case (Inl e)
  moreover from assms Inl have "isUnavailable e"
    unfolding always_transient_def by (metis sum.case(1))
  ultimately show ?thesis using that by blast
next
  case (Inr v)
  with assms show ?thesis
    unfolding always_transient_def by (metis sum.case(2))
qed

text \<open>The schedule that \<open>n\<close> retries starting at invocation \<open>k\<close> with pause \<open>d\<close> follow.\<close>

lemma retry_step:
  assumes "operation k = Inl e" "isUnavailable e"
  shows "retryOperation operation (int (Suc n)) delay fb k =
     (case retryOperation operation (int n) (delay * 2) fb (Suc k) of
        (r, tr) \<Rightarrow> (r, Attempt k # Wait delay # tr))"
  by (subst retryOperation.simps) (simp add: assms)

lemma retry_last:
  assumes "operation k = Inl e" "isUnavailable e"
  shows "retryOperation operation 0 delay fb k =
     (case fb of None \<Rightarrow> (Inl e, [Attempt k]) | Some r \<Rightarrow> (r, [Attempt k, FallbackAttempt]))"
  by (subst retryOperation.simps) (simp add: assms split: option.splits)

lemma retry_trace:
  assumes "always_transient operation"
  shows "snd (retryOperation operation (int n) delay fb k) =
           concat (map (\<lambda>i. [Attempt (k + i), Wait (delay * 2 ^ i)]) [0..<n])
           @ [Attempt (k + n)] @ (case fb of None \<Rightarrow> [] | Some r \<Rightarrow> [FallbackAttempt])"
proof (induction n arbitrary: delay k)
  case 0
  obtain e where e: "operation k = Inl e" "isUnavailable e"
    using always_transientD[OF assms] by blast
  show ?case
    by (simp add: retry_last[where operation=operation and k=k, OF e] split: option.splits)
next
  case (Suc n)
  obtain e where e: "operation k = Inl e" "isUnavailable e"
    using always_transientD[OF assms] by blast
  have shift: "concat (map (\<lambda>i. [Attempt (k + i), Wait (delay * 2 ^ i)]) [0..<Suc n]) =
     Attempt k # Wait delay #
       concat (map (\<lambda>i. [Attempt (Suc k + i), Wait (delay * 2 * 2 ^ i)]) [0..<n])"
    unfolding upt_0_Suc by (simp add: comp_def mult.assoc)
  show ?case
    unfolding retry_step[where operation=operation and k=k, OF e] shift using Suc.IH[of "delay * 2" "Suc k"]
    by (simp add: case_prod_beta)
qed

lemma retry_result:
  assumes "always_transient operation"
  shows "fst (retryOperation operation (int n) delay fb k) =
           (case fb of None \<Rightarrow> operation (k + n) | Some r \<Rightarrow> r)"
proof (induction n arbitrary: delay k)
  case 0
  obtain e where e: "operation k = Inl e" "isUnavailable e"
    using always_transientD[OF assms] by blast
  show ?case
    by (simp add: retry_last[where operation=operation and k=k, OF e] e split: option.splits)
next
  case (Suc n)
  obtain e where e: "operation k = Inl e" "isUnavailable e"
    using always_transientD[OF assms] by blast
  show ?case
    unfolding retry_step[where operation=operation and k=k, OF e] using Suc.IH[of "delay * 2" "Suc k"]
    by (simp add: case_prod_beta split: option.splits)
qed

lemma attempts_schedule:
  "attempts (concat (map (\<lambda>i. [Attempt (f i), Wait (g i)]) xs) @ Attempt m # rest)
     = map f xs @ m # attempts rest"
  by (induction xs) simp_all

lemma waits_schedule:
  "waits (concat (map (\<lambda>i. [Attempt (f i), Wait (g i)]) xs) @ Attempt m # rest)
     = map g xs @ waits rest"
  by (induction xs) simp_all

lemma fallbacks_schedule:
  "fallbacks (concat (map (\<lambda>i. [Attempt (f i), Wait (g i)]) xs) @ Attempt m # rest)
     = fallbacks rest"
  by (induction xs) simp_all

text \<open>
  Claim C4.  When every invocation of the operation rejects with a transient error
  (rate-limited or unavailable) and the retry count is not negative, a call of
  \<open>retryOperation\<close> invokes the operation exactly \<open>retries + 1\<close> times (invocations
  \<open>0 \<dots> retries\<close>), pauses before the \<open>i\<close>-th retry for \<open>delay * 2 ^ i\<close> milliseconds,
  and then invokes the fallback exactly once when one is configured, whose outcome is the
  outcome of the call; with no fallback the call rejects with the error of the last attempt.
\<close>

theorem retry_bound:
  assumes "always_transient operation" and "0 \<le> retries"
  shows "(case retryOperation operation retries delay fallbackOperation 0 of
            (result, trace) \<Rightarrow>
              attempts trace = [0..<nat retries + 1]
            \<and> length (attempts trace) = nat retries + 1
            \<and> waits trace = map (\<lambda>i. delay * 2 ^ i) [0..<nat retries]
            \<and> trace = concat (map (\<lambda>i. [Attempt i, Wait (delay * 2 ^ i)]) [0..<nat retries])
                        @ [Attempt (nat retries)]
                        @ (case fallbackOperation of None \<Rightarrow> [] | Some r \<Rightarrow> [FallbackAttempt])
            \<and> (case fallbackOperation of
                  Some r \<Rightarrow> fallbacks trace = 1 \<and> result = r
                | None \<Rightarrow> fallbacks trace = 0 \<and> isl result \<and> result = operation (nat retries)))"
proof -
  obtain n where n: "retries = int n"
    using assms(2) nonneg_int_cases by blast
  obtain result trace
    where rt: "retryOperation operation (int n) delay fallbackOperation 0 = (result, trace)"
    by (cases "retryOperation operation (int n) delay fallbackOperation 0")
  have tr: "trace = concat (map (\<lambda>i. [Attempt i, Wait (delay * 2 ^ i)]) [0..<n])
              @ Attempt n # (case fallbackOperation of None \<Rightarrow> [] | Some r \<Rightarrow> [FallbackAttempt])"
    using retry_trace[OF assms(1), of n delay fallbackOperation 0] rt by simp
  have res: "result = (case fallbackOperation of None \<Rightarrow> operation n | Some r \<Rightarrow> r)"
    using retry_result[OF assms(1), of n delay fallbackOperation 0] rt
    by (simp split: option.splits)
  obtain e where e: "operation n = Inl e"
    using always_transientD[OF assms(1)] by blast
  have a: "attempts trace = [0..<n + 1]"
    unfolding tr attempts_schedule by (simp split: option.splits)
  have w: "waits trace = map (\<lambda>i. delay * 2 ^ i) [0..<n]"
    unfolding tr waits_schedule by (simp split: option.splits)
  have f: "fallbacks trace = (case fallbackOperation of None \<Rightarrow> 0 | Some r \<Rightarrow> 1)"
    unfolding tr fallbacks_schedule by (simp split: option.splits)
  have l: "length (attempts trace) = n + 1"
    unfolding a by simp
  show ?thesis
    unfolding n rt using a w f l tr res e
    by (simp split: option.splits)
qed

theorem retry_bound_witness:
  "always_transient (\<lambda>k. Inl \<lparr>message = None, status = Some 503\<rparr> :: js_error + nat)
   \<and> (0::int) \<le> 2
   \<and> retryOperation (\<lambda>k. Inl \<lparr>message = None, status = Some 503\<rparr>) 2 1000 (Some (Inr (7::nat))) 0
       = (Inr 7, [Attempt 0, Wait 1000, Attempt 1, Wait 2000, Attempt 2, FallbackAttempt])"
proof -
  let ?op = "\<lambda>k::nat. Inl \<lparr>message = None, status = Some 503\<rparr> :: js_error + nat"
  have h1: "always_transient ?op"
    by (simp add: always_transient_def isUnavailable_def)
  have h2: "(0::int) \<le> 2" by simp
  obtain result trace
    where rt: "retryOperation ?op 2 1000 (Some (Inr 7)) 0 = (result, trace)"
    by (cases "retryOperation ?op 2 1000 (Some (Inr 7)) 0")
  have two: "[0..<2] = [0, Suc 0]"
    by (simp add: upt_rec)
  show ?thesis
    using retry_bound[OF h1 h2, of 1000 "Some (Inr 7)"] h1 unfolding rt
    by (simp add: two)
qed

subsection \<open>Soft delete, restore and purge\<close>

lemma restore_delete_eq:
  "handleRestorePromptSession i (handleDeletePromptSession i prev)
     = map (\<lambda>s. if sid s = i then s\<lparr>isDeleted := Some False\<rparr> else s) prev"
  unfolding handleRestorePromptSession_def handleDeletePromptSession_def map_map
  by (rule map_cong) simp_all

lemma restore_delete_rel:
  "list_all2 (\<lambda>s' s. s' = (if sid s = i then s\<lparr>isDeleted := Some False\<rparr> else s))
     (handleRestorePromptSession i (handleDeletePromptSession i prev)) prev"
  unfolding restore_delete_eq list_all2_map1
  by (rule list.rel_refl) simp

lemma purge_after_delete:
  "s \<in> set (handleEmptyRecycleBin True (handleDeletePromptSession i prev)) \<Longrightarrow> sid s \<noteq> i"
  unfolding handleEmptyRecycleBin_def handleDeletePromptSession_def
  by (induction prev) (auto split: if_splits)

lemma restore_keeps_ids:
  "sid ` set (handleRestorePromptSession j prev) = sid ` set prev"
  unfolding handleRestorePromptSession_def
  by (induction prev) auto

text \<open>
  Claim C5.  Restoring a soft-deleted session gives back every session of the store as
  it was, apart from the deletion flag of the sessions with that id, which is cleared:
  title and message log are unchanged, and sessions with another id are untouched.
  After a soft delete of an id, a confirmed purge leaves no session with that id in the
  store, and no later restore brings one back.
\<close>

theorem soft_delete_round_trip:
  "list_all2 (\<lambda>s' s. s'\<lparr>isDeleted := isDeleted s\<rparr> = s
                      \<and> title s' = title s \<and> messages s' = messages s
                      \<and> (if sid s = i then isDeleted s' = Some False else s' = s))
     (handleRestorePromptSession i (handleDeletePromptSession i prev)) prev
   \<and> (\<forall>s \<in> set (handleEmptyRecycleBin True (handleDeletePromptSession i prev)). sid s \<noteq> i)
   \<and> (\<forall>s \<in> set (handleRestorePromptSession j
                      (handleEmptyRecycleBin True (handleDeletePromptSession i prev))). sid s \<noteq> i)"
proof (intro conjI ballI)
  show "list_all2 (\<lambda>s' s. s'\<lparr>isDeleted := isDeleted s\<rparr> = s
                      \<and> title s' = title s \<and> messages s' = messages s
                      \<and> (if sid s = i then isDeleted s' = Some False else s' = s))
     (handleRestorePromptSession i (handleDeletePromptSession i prev)) prev"
    by (rule list_all2_mono[OF restore_delete_rel]) simp
next
  fix s assume "s \<in> set (handleEmptyRecycleBin True (handleDeletePromptSession i prev))"
  then show "sid s \<noteq> i" by (rule purge_after_delete)
next
  fix s
  assume "s \<in> set (handleRestorePromptSession j
                      (handleEmptyRecycleBin True (handleDeletePromptSession i prev)))"
  then have "sid s \<in> sid ` set (handleEmptyRecycleBin True (handleDeletePromptSession i prev))"
    using restore_keeps_ids by blast
  then show "sid s \<noteq> i" by (auto dest: purge_after_delete)
qed

theorem soft_delete_round_trip_witness:
  "handleRestorePromptSession ''a'' (handleDeletePromptSession ''a'' [session_a, session_b])
     = [session_a, session_b]
   \<and> handleEmptyRecycleBin True (handleDeletePromptSession ''a'' [session_a, session_b])
     = [session_b]
   \<and> handleRestorePromptSession ''a''
       (handleEmptyRecycleBin True (handleDeletePromptSession ''a'' [session_a, session_b]))
     = [session_b]"
  using soft_delete_round_trip[of "''a''" "[session_a, session_b]" "''a''"]
  by (simp add: handleRestorePromptSession_def handleDeletePromptSession_def
                 handleEmptyRecycleBin_def session_a_def session_b_def)

subsection \<open>Conversational turn\<close>

lemma handleSend_history:
  assumes "handleSend now pj rc ra st = Some (st1, req)"
  shows "history req = inject_profile pj (map (\<lambda>m. \<lparr>h_role = role m, parts = [content m]\<rparr>) (filter (\<lambda>m. role m \<noteq> SYSTEM) (slice_last 20 (messages_st st1))))"
  using assms unfolding handleSend_def Let_def
  by (auto split: if_splits)

lemma handleSend_message:
  assumes "handleSend now pj rc ra st = Some (st1, req)"
  shows "new_message req = (case rc of Some c \<Rightarrow> c | None \<Rightarrow> input st)"
  using assms unfolding handleSend_def Let_def
  by (auto split: if_splits)

lemma handleSend_log_new:
  assumes "handleSend now pj None ra st = Some (st1, req)"
  shows "\<exists>u. messages_st st1 = messages_st st @ [u] \<and> role u = USER \<and> content u = input st"
  using assms unfolding handleSend_def Let_def
  by (auto split: if_splits)

lemma handleSend_log_retry:
  assumes "handleSend now pj (Some c) ra st = Some (st1, req)"
  shows "messages_st st1 = messages_st st"
  using assms unfolding handleSend_def Let_def
  by (auto split: if_splits)

lemma last_in_slice_last:
  assumes "xs \<noteq> []" and "0 < n"
  shows "last xs \<in> set (slice_last n xs)"
proof -
  have k: "length xs - n < length xs" using assms by simp
  then have "drop (length xs - n) xs \<noteq> []" by simp
  then have "last (drop (length xs - n) xs) \<in> set (drop (length xs - n) xs)"
    by (rule last_in_set)
  then show ?thesis using k by (simp add: slice_last_def)
qed

lemma last_butlast_in_slice_last:
  assumes "butlast xs \<noteq> []" and "1 < n"
  shows "last (butlast xs) \<in> set (slice_last n xs)"
proof -
  have len: "2 \<le> length xs"
    using assms(1) by (cases xs) (auto simp: Suc_le_eq split: if_splits)
  then have k: "length xs - n < length (butlast xs)" using assms(2) by simp
  then have ne: "drop (length xs - n) (butlast xs) \<noteq> []" by simp
  have "last (butlast xs) = last (drop (length xs - n) (butlast xs))"
    using k by simp
  also have "\<dots> \<in> set (drop (length xs - n) (butlast xs))"
    using ne by (rule last_in_set)
  also have "\<dots> \<subseteq> set (drop (length xs - n) xs)"
    by (metis butlast_drop in_set_butlastD subsetI)
  finally show ?thesis by (simp add: slice_last_def)
qed

lemma handleRegenerate_send:
  assumes "handleRegenerate now pj st = Some (st1, req)"
  shows "\<exists>u st'. handleSend now pj (Some (content u)) (map_option Some (fileData u)) st = Some (st', req)
           \<and> role u = USER \<and> u \<in> set (slice_last 20 (messages_st st))"
proof -
  from assms have ne: "messages_st st \<noteq> []"
    unfolding handleRegenerate_def by (auto split: if_splits)
  show ?thesis
  proof (cases "role (last (messages_st st)) = MODEL")
    case True
    with assms ne have kne: "butlast (messages_st st) \<noteq> []"
      unfolding handleRegenerate_def Let_def by (auto split: if_splits)
    let ?u = "last (butlast (messages_st st))"
    from assms ne True kne obtain st' where
      "handleSend now pj (Some (content ?u)) (map_option Some (fileData ?u)) st = Some (st', req)"
      "role ?u = USER"
      unfolding handleRegenerate_def Let_def by (auto split: if_splits)
    moreover have "?u \<in> set (slice_last 20 (messages_st st))"
      using kne by (rule last_butlast_in_slice_last) simp
    ultimately show ?thesis by blast
  next
    case False
    let ?u = "last (messages_st st)"
    from assms ne False obtain st' where
      "handleSend now pj (Some (content ?u)) (map_option Some (fileData ?u)) st = Some (st', req)"
      "role ?u = USER"
      unfolding handleRegenerate_def Let_def by (auto split: if_splits)
    moreover have "?u \<in> set (slice_last 20 (messages_st st))"
      using ne by (rule last_in_slice_last) simp
    ultimately show ?thesis by blast
  qed
qed

lemma length_slice_last: "length (slice_last n xs) \<le> n"
  by (simp add: slice_last_def)

lemma slice_last_append: "length ys = n \<Longrightarrow> slice_last n (xs @ ys) = ys"
  by (simp add: slice_last_def)

lemma filter_slice_last:
  assumes "\<forall>x \<in> set (slice_last n xs). P x"
  shows "filter P (slice_last n xs) = slice_last n (filter P xs)"
proof -
  have all: "filter P (slice_last n xs) = slice_last n xs"
    using assms by (simp add: filter_id_conv)
  have split: "filter P xs = filter P (take (length xs - n) xs) @ slice_last n xs"
    using all by (metis append_take_drop_id filter_append slice_last_def)
  show ?thesis
  proof (cases "n \<le> length xs")
    case True
    then have "length (slice_last n xs) = n" by (simp add: slice_last_def)
    then show ?thesis unfolding all by (subst split) (simp add: slice_last_append)
  next
    case False
    then have "slice_last n xs = xs" by (simp add: slice_last_def)
    moreover from this all have "filter P xs = xs" by simp
    ultimately show ?thesis by simp
  qed
qed


lemma length_inject_profile: "length (inject_profile pj hs) = length hs"
  by (cases hs) simp_all

lemma map_role_inject_profile: "map h_role (inject_profile pj hs) = map h_role hs"
  by (cases hs) simp_all

lemma profile_context_nonempty: "profile_context pj \<noteq> []"
  by (simp add: profile_context_def)

lemma untouched_entries:
  "filter (\<lambda>(h, m). parts h \<noteq> [content m])
     (zip (map (\<lambda>m. \<lparr>h_role = role m, parts = [content m]\<rparr>) ms) ms) = []"
  by (induction ms) simp_all

lemma window_nonempty:
  assumes "u \<in> set (slice_last 20 msgs)" and "role u = USER"
  shows "filter (\<lambda>m. role m \<noteq> SYSTEM) (slice_last 20 msgs) \<noteq> []"
proof -
  have "role u \<noteq> SYSTEM" using assms(2) by simp
  with assms(1) show ?thesis unfolding filter_empty_conv by blast
qed

lemma str_includes_infix: "str_includes (a @ s @ b) s"
proof (induction a)
  case Nil
  show ?case
  proof (cases "s @ b")
    case Nil
    then show ?thesis by simp
  next
    case (Cons c cs)
    have "take (length s) (s @ b) = s" by simp
    then have "take (length s) (c # cs) = s" unfolding Cons .
    then have "str_includes (c # cs) s" by simp
    then show ?thesis using Cons by simp
  qed
next
  case (Cons c a)
  then show ?case by simp
qed

lemma profile_context_includes: "str_includes (profile_context pj @ t) pj"
  unfolding profile_context_def append_assoc by (rule str_includes_infix)

lemma injected_shape:
  assumes "history req = inject_profile pj
             (map (\<lambda>m. \<lparr>h_role = role m, parts = [content m]\<rparr>)
                (filter (\<lambda>m. role m \<noteq> SYSTEM) (slice_last 20 msgs)))"
      and "filter (\<lambda>m. role m \<noteq> SYSTEM) (slice_last 20 msgs) \<noteq> []"
  shows "\<exists>m ms. filter (\<lambda>m. role m \<noteq> SYSTEM) (slice_last 20 msgs) = m # ms
           \<and> history req =
               \<lparr>h_role = role m,
                parts = [''[System Context: Current User Profile (Values/Traits): '' @ pj @ '']''
                           @ [CHR 0x0A, CHR 0x0A] @ content m]\<rparr>
               # map (\<lambda>m. \<lparr>h_role = role m, parts = [content m]\<rparr>) ms
           \<and> str_includes (hd (parts (hd (history req)))) pj
           \<and> length (filter (\<lambda>(h, m). parts h \<noteq> [content m]) (zip (history req) (m # ms))) = 1"
proof -
  from assms(2) obtain m ms
    where w: "filter (\<lambda>m. role m \<noteq> SYSTEM) (slice_last 20 msgs) = m # ms"
    by (cases "filter (\<lambda>m. role m \<noteq> SYSTEM) (slice_last 20 msgs)") auto
  have h: "history req = \<lparr>h_role = role m, parts = [profile_context pj @ content m]\<rparr>
                              # map (\<lambda>m. \<lparr>h_role = role m, parts = [content m]\<rparr>) ms"
    unfolding assms(1) w by simp
  have h': "history req =
               \<lparr>h_role = role m,
                parts = [''[System Context: Current User Profile (Values/Traits): '' @ pj @ '']''
                           @ [CHR 0x0A, CHR 0x0A] @ content m]\<rparr>
               # map (\<lambda>m. \<lparr>h_role = role m, parts = [content m]\<rparr>) ms"
    unfolding h profile_context_def by simp
  have inc: "str_includes (hd (parts (hd (history req)))) pj"
    unfolding h using profile_context_includes by simp
  have "length (filter (\<lambda>(h, m). parts h \<noteq> [content m]) (zip (history req) (m # ms))) = 1"
    unfolding h by (simp add: profile_context_nonempty untouched_entries)
  with w h' inc show ?thesis by blast
qed

lemma long_session_send:
  "handleSend ''1'' ''{}'' None None long_session =
     Some (long_session\<lparr>messages_st := messages_st long_session @ [(user_msg ''hi'')\<lparr>mid := ''1''\<rparr>],
                        input := [], isLoading := True\<rparr>,
           \<lparr>history = \<lparr>h_role = USER, parts = [profile_context ''{}'' @ ''u'']\<rparr>
                        # replicate 7 \<lparr>h_role = USER, parts = [''u'']\<rparr>
                        @ replicate 10 \<lparr>h_role = USER, parts = [''v'']\<rparr>
                        @ [\<lparr>h_role = USER, parts = [''hi'']\<rparr>],
            new_message = ''hi'',
            options = \<lparr>o_useThinking = False, o_useSearch = False, o_fileData = None\<rparr>\<rparr>)"
  by (simp add: handleSend_def Let_def long_session_def user_msg_def system_msg_def
        slice_last_def trim_def js_whitespace_def numeral_eq_Suc)

lemma plain_session_send:
  "handleSend ''1'' ''{}'' None None plain_session =
     Some (plain_session\<lparr>messages_st := messages_st plain_session @ [(user_msg ''hi'')\<lparr>mid := ''1''\<rparr>],
                         input := [], isLoading := True\<rparr>,
           \<lparr>history = \<lparr>h_role = USER, parts = [profile_context ''{}'' @ ''u'']\<rparr>
                        # replicate 18 \<lparr>h_role = USER, parts = [''u'']\<rparr>
                        @ [\<lparr>h_role = USER, parts = [''hi'']\<rparr>],
            new_message = ''hi'',
            options = \<lparr>o_useThinking = False, o_useSearch = False, o_fileData = None\<rparr>\<rparr>)"
  by (simp add: handleSend_def Let_def plain_session_def user_msg_def system_msg_def
        slice_last_def trim_def js_whitespace_def numeral_eq_Suc)

lemma fresh_session_send:
  "handleSend ''1'' ''{}'' None None fresh_session =
     Some (fresh_session\<lparr>messages_st := [system_msg ''welcome'', (user_msg ''hi'')\<lparr>mid := ''1''\<rparr>],
                         input := [], isLoading := True\<rparr>,
           \<lparr>history = [\<lparr>h_role = USER, parts = [profile_context ''{}'' @ ''hi'']\<rparr>],
            new_message = ''hi'',
            options = \<lparr>o_useThinking = False, o_useSearch = False, o_fileData = None\<rparr>\<rparr>)"
  by (simp add: handleSend_def Let_def fresh_session_def user_msg_def system_msg_def
        slice_last_def trim_def js_whitespace_def)

lemma answered_session_regenerate:
  "handleRegenerate ''2'' ''{}'' answered_session =
     Some (answered_session\<lparr>messages_st := [system_msg ''welcome'', user_msg ''q''],
                            isLoading := True\<rparr>,
           \<lparr>history = [\<lparr>h_role = USER, parts = [profile_context ''{}'' @ ''q'']\<rparr>,
                       \<lparr>h_role = MODEL, parts = [''a'']\<rparr>],
            new_message = ''q'',
            options = \<lparr>o_useThinking = False, o_useSearch = False, o_fileData = None\<rparr>\<rparr>)"
  by (simp add: handleRegenerate_def handleSend_def Let_def answered_session_def user_msg_def
        system_msg_def slice_last_def trim_def js_whitespace_def)

text \<open>
  Claim C1, as the code has it.  The history of a turn consists of the non-system
  messages among the last 20 messages of the log, in their order (the last 20 messages
  are taken first, then the system messages among them are dropped); the first entry
  carries the profile prefix.  So the history has at most 20 entries, and it is the
  specification's "last 20 non-system messages" whenever none of the last 20 messages of
  the log is a system message.  The log is the one the call reads: for a new message it
  already ends with that message.
\<close>

theorem context_window:
  assumes "handleSend now pj retryContent retryAttachment st = Some (st1, req)"
  shows "history req =
           inject_profile pj
             (map (\<lambda>m. \<lparr>h_role = role m, parts = [content m]\<rparr>)
                (filter (\<lambda>m. role m \<noteq> SYSTEM) (slice_last 20 (messages_st st1))))
         \<and> map h_role (history req) =
             map role (filter (\<lambda>m. role m \<noteq> SYSTEM) (slice_last 20 (messages_st st1)))
         \<and> length (history req) \<le> 20
         \<and> ((\<forall>m \<in> set (slice_last 20 (messages_st st1)). role m \<noteq> SYSTEM)
              \<longrightarrow> history req = inject_profile pj (history_by_spec (messages_st st1)))"
proof -
  let ?w = "filter (\<lambda>m. role m \<noteq> SYSTEM) (slice_last 20 (messages_st st1))"
  have h: "history req = inject_profile pj (map (\<lambda>m. \<lparr>h_role = role m, parts = [content m]\<rparr>) ?w)"
    using handleSend_history[OF assms] .
  have r: "map h_role (history req) = map role ?w"
    unfolding h map_role_inject_profile by (simp add: comp_def)
  have "length ?w \<le> length (slice_last 20 (messages_st st1))"
    by (rule length_filter_le)
  also have "\<dots> \<le> 20" by (rule length_slice_last)
  finally have l: "length (history req) \<le> 20"
    unfolding h length_inject_profile by simp
  have s: "history req = inject_profile pj (history_by_spec (messages_st st1))"
    if "\<forall>m \<in> set (slice_last 20 (messages_st st1)). role m \<noteq> SYSTEM"
    unfolding h history_by_spec_def using filter_slice_last[OF that] by simp
  from h r l s show ?thesis by blast
qed

theorem context_window_witness:
  "handleSend ''1'' ''{}'' None None plain_session \<noteq> None
   \<and> length (messages_st (fst (the (handleSend ''1'' ''{}'' None None plain_session)))) = 23
   \<and> list_all (\<lambda>m. role m \<noteq> SYSTEM)
        (slice_last 20 (messages_st (fst (the (handleSend ''1'' ''{}'' None None plain_session)))))
   \<and> history (snd (the (handleSend ''1'' ''{}'' None None plain_session)))
       = inject_profile ''{}''
           (history_by_spec (messages_st (fst (the (handleSend ''1'' ''{}'' None None plain_session)))))
   \<and> length (history (snd (the (handleSend ''1'' ''{}'' None None plain_session)))) = 20"
proof -
  obtain st1 req where sr: "handleSend ''1'' ''{}'' None None plain_session = Some (st1, req)"
    using plain_session_send by blast
  have m: "messages_st st1 = messages_st plain_session @ [(user_msg ''hi'')\<lparr>mid := ''1''\<rparr>]"
    using sr unfolding plain_session_send by auto
  have len: "length (messages_st st1) = 23"
    unfolding m by (simp add: plain_session_def)
  have ns: "\<forall>m \<in> set (slice_last 20 (messages_st st1)). role m \<noteq> SYSTEM"
    unfolding m by (simp add: plain_session_def slice_last_def user_msg_def system_msg_def)
  have l20: "length (history req) = 20"
    using sr unfolding plain_session_send by auto
  from context_window[OF sr] ns
  have "history req = inject_profile ''{}'' (history_by_spec (messages_st st1))"
    by blast
  then show ?thesis
    unfolding sr using len ns l20 by (simp add: list_all_iff)
qed

text \<open>
  Claim C1 as stated fails: a log of 22 messages whose eleventh message is a system
  message gives a history of 19 entries, while the most recent 20 non-system messages
  are 20.
\<close>

theorem context_window_counterexample:
  "handleSend ''1'' ''{}'' None None long_session \<noteq> None
   \<and> length (messages_st (fst (the (handleSend ''1'' ''{}'' None None long_session)))) = 22
   \<and> length (history (snd (the (handleSend ''1'' ''{}'' None None long_session)))) = 19
   \<and> length (history_by_spec
               (messages_st (fst (the (handleSend ''1'' ''{}'' None None long_session))))) = 20
   \<and> history (snd (the (handleSend ''1'' ''{}'' None None long_session)))
       \<noteq> inject_profile ''{}'' (history_by_spec
               (messages_st (fst (the (handleSend ''1'' ''{}'' None None long_session)))))"
proof -
  have len: "length (history_by_spec
               (messages_st (fst (the (handleSend ''1'' ''{}'' None None long_session))))) = 20"
    unfolding long_session_send
    by (simp add: long_session_def history_by_spec_def slice_last_def user_msg_def system_msg_def)
  have inj: "length (inject_profile pj hs) = length hs" for pj hs
    by (cases hs) simp_all
  have len': "length (history (snd (the (handleSend ''1'' ''{}'' None None long_session)))) = 19"
    unfolding long_session_send by simp
  have "length (messages_st (fst (the (handleSend ''1'' ''{}'' None None long_session)))) = 22"
    unfolding long_session_send by (simp add: long_session_def)
  moreover have "handleSend ''1'' ''{}'' None None long_session \<noteq> None"
    unfolding long_session_send by simp
  moreover have "history (snd (the (handleSend ''1'' ''{}'' None None long_session)))
       \<noteq> inject_profile ''{}'' (history_by_spec
               (messages_st (fst (the (handleSend ''1'' ''{}'' None None long_session)))))"
  proof
    assume "history (snd (the (handleSend ''1'' ''{}'' None None long_session)))
       = inject_profile ''{}'' (history_by_spec
               (messages_st (fst (the (handleSend ''1'' ''{}'' None None long_session)))))"
    then have "length (history (snd (the (handleSend ''1'' ''{}'' None None long_session))))
       = length (history_by_spec
               (messages_st (fst (the (handleSend ''1'' ''{}'' None None long_session)))))"
      by (simp add: inj)
    with len len' show False by simp
  qed
  ultimately show ?thesis using len len' by blast
qed

text \<open>
  Claim C6.  In the request of every turn, whether started by a new message or by
  regeneration, the window of non-system messages is not empty; the text of the first
  entry of the history is the text
  \<^verbatim>\<open>[System Context: Current User Profile (Values/Traits): \<close>, the serialized profile
  \<open>pj\<close>, a closing bracket and two line feeds, followed by the text of the first message
  of the window, so the serialized profile occurs in it; every later entry carries
  exactly the text of its message, so exactly one entry differs from the message it was
  made from; and the new-message argument is the plain content of a user message of the
  window.
\<close>

theorem profile_injected_once:
  assumes "handleSend now pj None None st = Some (st1, req) \<and> msgs = messages_st st1
         \<or> handleRegenerate now pj st = Some (st1, req) \<and> msgs = messages_st st"
  shows "(\<exists>m ms. filter (\<lambda>m. role m \<noteq> SYSTEM) (slice_last 20 msgs) = m # ms
           \<and> history req =
               \<lparr>h_role = role m,
                parts = [''[System Context: Current User Profile (Values/Traits): '' @ pj @ '']''
                           @ [CHR 0x0A, CHR 0x0A] @ content m]\<rparr>
               # map (\<lambda>m. \<lparr>h_role = role m, parts = [content m]\<rparr>) ms
           \<and> str_includes (hd (parts (hd (history req)))) pj
           \<and> length (filter (\<lambda>(h, m). parts h \<noteq> [content m]) (zip (history req) (m # ms))) = 1)
         \<and> (\<exists>u \<in> set (slice_last 20 msgs). role u = USER \<and> new_message req = content u)"
  using assms
proof (elim disjE conjE)
  assume send: "handleSend now pj None None st = Some (st1, req)" and msgs: "msgs = messages_st st1"
  from handleSend_log_new[OF send] obtain u
    where u: "msgs = messages_st st @ [u]" "role u = USER" "content u = input st"
    unfolding msgs by blast
  have "last msgs \<in> set (slice_last 20 msgs)"
    by (rule last_in_slice_last) (simp_all add: u(1))
  then have uin: "u \<in> set (slice_last 20 msgs)" by (simp add: u(1))
  have msg: "new_message req = content u"
    using handleSend_message[OF send] u(3) by simp
  have hist: "history req = inject_profile pj
             (map (\<lambda>m. \<lparr>h_role = role m, parts = [content m]\<rparr>)
                (filter (\<lambda>m. role m \<noteq> SYSTEM) (slice_last 20 msgs)))"
    unfolding msgs by (rule handleSend_history[OF send])
  show ?thesis
    using injected_shape[OF hist window_nonempty[OF uin u(2)]] uin u(2) msg by blast
next
  assume reg: "handleRegenerate now pj st = Some (st1, req)" and msgs: "msgs = messages_st st"
  from handleRegenerate_send[OF reg] obtain u st'
    where send: "handleSend now pj (Some (content u)) (map_option Some (fileData u)) st = Some (st', req)"
      and u: "role u = USER" "u \<in> set (slice_last 20 msgs)"
    unfolding msgs by blast
  have msg: "new_message req = content u"
    using handleSend_message[OF send] by simp
  have hist: "history req = inject_profile pj
             (map (\<lambda>m. \<lparr>h_role = role m, parts = [content m]\<rparr>)
                (filter (\<lambda>m. role m \<noteq> SYSTEM) (slice_last 20 msgs)))"
    using handleSend_history[OF send] unfolding handleSend_log_retry[OF send] msgs .
  show ?thesis
    using injected_shape[OF hist window_nonempty[OF u(2) u(1)]] u msg by blast
qed

theorem profile_injected_once_witness:
  "handleSend ''1'' ''{}'' None None fresh_session \<noteq> None
   \<and> history (snd (the (handleSend ''1'' ''{}'' None None fresh_session)))
       = [\<lparr>h_role = USER,
           parts = [''[System Context: Current User Profile (Values/Traits): {}]''
                      @ [CHR 0x0A, CHR 0x0A] @ ''hi'']\<rparr>]
   \<and> str_includes
        (hd (parts (hd (history (snd (the (handleSend ''1'' ''{}'' None None
                                             fresh_session)))))))
        ''{}''
   \<and> new_message (snd (the (handleSend ''1'' ''{}'' None None fresh_session))) = ''hi''
   \<and> handleRegenerate ''2'' ''{}'' answered_session \<noteq> None
   \<and> history (snd (the (handleRegenerate ''2'' ''{}'' answered_session)))
       = [\<lparr>h_role = USER,
           parts = [''[System Context: Current User Profile (Values/Traits): {}]''
                      @ [CHR 0x0A, CHR 0x0A] @ ''q'']\<rparr>,
          \<lparr>h_role = MODEL, parts = [''a'']\<rparr>]"
proof -
  let ?pj = "''{}''"
  obtain st1 req where sr: "handleSend ''1'' ?pj None None fresh_session = Some (st1, req)"
    by (simp add: handleSend_def Let_def fresh_session_def user_msg_def system_msg_def
          slice_last_def trim_def js_whitespace_def)
  have m: "messages_st st1 = [system_msg ''welcome'', (user_msg ''hi'')\<lparr>mid := ''1''\<rparr>]"
    using sr
    by (auto simp: handleSend_def Let_def fresh_session_def user_msg_def system_msg_def
          slice_last_def trim_def js_whitespace_def)
  have w: "filter (\<lambda>m. role m \<noteq> SYSTEM) (slice_last 20 (messages_st st1))
             = [(user_msg ''hi'')\<lparr>mid := ''1''\<rparr>]"
    unfolding m by (simp add: slice_last_def user_msg_def system_msg_def)
  have sl: "slice_last 20 (messages_st st1)
             = [system_msg ''welcome'', (user_msg ''hi'')\<lparr>mid := ''1''\<rparr>]"
    unfolding m by (simp add: slice_last_def)
  from profile_injected_once[of "''1''" ?pj fresh_session st1 req "messages_st st1"] sr
  have one: "history req =
               [\<lparr>h_role = USER,
                 parts = [''[System Context: Current User Profile (Values/Traits): '' @ ?pj @ '']''
                            @ [CHR 0x0A, CHR 0x0A] @ ''hi'']\<rparr>]
        \<and> str_includes (hd (parts (hd (history req)))) ?pj
        \<and> new_message req = ''hi''"
    unfolding w unfolding sl by (auto simp: user_msg_def system_msg_def)
  obtain st2 req2 where rg: "handleRegenerate ''2'' ?pj answered_session = Some (st2, req2)"
    by (simp add: handleRegenerate_def handleSend_def Let_def answered_session_def user_msg_def
          system_msg_def slice_last_def trim_def js_whitespace_def)
  have w2: "filter (\<lambda>m. role m \<noteq> SYSTEM) (slice_last 20 (messages_st answered_session))
             = [user_msg ''q'', (user_msg ''a'')\<lparr>role := MODEL\<rparr>]"
    by (simp add: answered_session_def slice_last_def user_msg_def system_msg_def)
  from profile_injected_once[of "''2''" ?pj answered_session st2 req2
         "messages_st answered_session"] rg
  have two: "history req2 =
               [\<lparr>h_role = USER,
                 parts = [''[System Context: Current User Profile (Values/Traits): '' @ ?pj @ '']''
                            @ [CHR 0x0A, CHR 0x0A] @ ''q'']\<rparr>,
                \<lparr>h_role = MODEL, parts = [''a'']\<rparr>]"
    unfolding w2 by (auto simp: user_msg_def)
  from one two show ?thesis unfolding sr rg by simp
qed

text \<open>
  Claim C10.  A send that is not a retry appends the new user message to the log
  before the history is cut from it, so the last entry of the history is that message
  (role user, its text the entered text, behind the profile context when it is the only
  entry), and the same entered text is also the new-message argument of the call.
\<close>

theorem user_text_twice:
  assumes "handleSend now pj None None st = Some (st1, req)"
  shows "butlast (messages_st st1) = messages_st st
         \<and> role (last (messages_st st1)) = USER
         \<and> content (last (messages_st st1)) = input st
         \<and> history req \<noteq> []
         \<and> h_role (last (history req)) = USER
         \<and> parts (last (history req))
             = [(if length (history req) = 1 then profile_context pj else []) @ input st]
         \<and> new_message req = input st"
proof -
  from handleSend_log_new[OF assms] obtain u
    where u: "messages_st st1 = messages_st st @ [u]" "role u = USER" "content u = input st"
    by blast
  let ?w = "filter (\<lambda>m. role m \<noteq> SYSTEM) (slice_last 20 (messages_st st1))"
  have sl: "slice_last 20 (messages_st st1) = slice_last 19 (messages_st st) @ [u]"
    unfolding u(1) slice_last_def by (simp add: Suc_diff_le)
  have "\<exists>ms. ?w = ms @ [u]"
    unfolding sl using u(2) by simp
  then obtain ms where w: "?w = ms @ [u]" by blast
  have hist: "history req = inject_profile pj
             (map (\<lambda>m. \<lparr>h_role = role m, parts = [content m]\<rparr>) (ms @ [u]))"
    using handleSend_history[OF assms] unfolding w .
  have shape: "history req \<noteq> [] \<and> h_role (last (history req)) = USER
         \<and> parts (last (history req))
             = [(if length (history req) = 1 then profile_context pj else []) @ input st]"
    unfolding hist using u(2,3) by (cases ms) simp_all
  have msg: "new_message req = input st"
    using handleSend_message[OF assms] by simp
  show ?thesis using u shape msg by simp
qed

theorem user_text_twice_witness:
  "handleSend ''1'' ''{}'' None None long_session \<noteq> None
   \<and> parts (last (history (snd (the (handleSend ''1'' ''{}'' None None long_session)))))
       = [''hi'']
   \<and> new_message (snd (the (handleSend ''1'' ''{}'' None None long_session))) = ''hi''"
proof -
  obtain st1 req where sr: "handleSend ''1'' ''{}'' None None long_session = Some (st1, req)"
    using long_session_send by blast
  have len: "length (history req) = 19"
    using sr unfolding long_session_send by auto
  have inp: "input long_session = ''hi''"
    by (simp add: long_session_def)
  from user_text_twice[OF sr]
  have "parts (last (history req)) = [''hi''] \<and> new_message req = ''hi''"
    unfolding len inp by simp
  then show ?thesis unfolding sr by simp
qed



subsection \<open>Live audio scheduling\<close>

lemma live_run_append: "live_run (evs @ evs') st = live_run evs' (live_run evs st)"
  by (induction evs arbitrary: st) simp_all

lemma uninterrupted_append:
  "uninterrupted (evs @ evs') = (uninterrupted evs \<and> uninterrupted evs')"
  by (induction evs rule: uninterrupted.induct) simp_all

lemma clocks_append: "clocks (evs @ evs') = clocks evs @ clocks evs'"
  by (induction evs rule: clocks.induct) simp_all

lemma no_overlap_snoc:
  "no_overlap (fs @ [g]) =
     (no_overlap fs \<and> (fs \<noteq> [] \<longrightarrow> start (last fs) + duration (last fs) \<le> start g
                                      \<and> clock g \<le> start g))"
  by (induction fs rule: no_overlap.induct) auto

lemma no_overlap_nth:
  assumes "no_overlap fs" and "Suc n < length fs"
  shows "start (fs ! n) + duration (fs ! n) \<le> start (fs ! Suc n)
         \<and> clock (fs ! Suc n) \<le> start (fs ! Suc n)"
  using assms
proof (induction fs arbitrary: n rule: no_overlap.induct)
  case (3 f g fs)
  then show ?case by (cases n) auto
qed simp_all

lemma back_to_back_snoc:
  "back_to_back (fs @ [g]) =
     (back_to_back fs \<and> (fs \<noteq> [] \<longrightarrow> start g = max (start (last fs) + duration (last fs)) (clock g)))"
  by (induction fs rule: back_to_back.induct) auto

lemma back_to_back_nth:
  assumes "back_to_back fs" and "Suc n < length fs"
  shows "start (fs ! Suc n) = max (start (fs ! n) + duration (fs ! n)) (clock (fs ! Suc n))"
  using assms
proof (induction fs arbitrary: n rule: back_to_back.induct)
  case (3 f g fs)
  then show ?case by (cases n) auto
qed simp_all

text \<open>What a message adds to the log of started frames, whatever else it carries.\<close>

lemma onmessage_started:
  "started (fst (onmessage now msg st)) =
     started st @ (case audio msg of
                     Frame d \<Rightarrow> if audioContext st
                              then [\<lparr>node = created st, clock = now,
                                     start = max (nextStartTime st) now, duration = d\<rparr>]
                              else []
                   | _ \<Rightarrow> [])"
  by (simp add: onmessage_def Let_def split: model_audio.splits option.splits)

lemma onmessage_next:
  "\<not> interrupted msg \<Longrightarrow>
   nextStartTime (fst (onmessage now msg st)) =
     (case audio msg of
        Frame d \<Rightarrow> if audioContext st then max (nextStartTime st) now + d else nextStartTime st
      | Undecodable \<Rightarrow> if audioContext st then max (nextStartTime st) now else nextStartTime st
      | _ \<Rightarrow> nextStartTime st)"
  by (simp add: onmessage_def Let_def split: model_audio.splits option.splits)

lemma frames_since_step:
  assumes "k \<le> length (started st)"
  shows "frames_since k (fst (onmessage now msg st)) =
     frames_since k st @ (case audio msg of
                     Frame d \<Rightarrow> if audioContext st
                              then [\<lparr>node = created st, clock = now,
                                     start = max (nextStartTime st) now, duration = d\<rparr>]
                              else []
                   | _ \<Rightarrow> [])"
  using assms by (simp add: frames_since_def onmessage_started)

lemma frames_since_ended: "frames_since k (on_ended n st) = frames_since k st"
  by (simp add: frames_since_def on_ended_def)

lemma on_ended_same:
  "started (on_ended n st) = started st" "nextStartTime (on_ended n st) = nextStartTime st"
  by (simp_all add: on_ended_def)


lemma length_started_step: "length (started st) \<le> length (started (live_step ev st))"
  by (cases ev) (simp_all add: onmessage_started on_ended_same)

lemma overlap_frames_step:
  assumes "overlap_inv k st"
  shows "no_overlap (frames_since k (live_step ev st))"
proof (cases ev)
  case (Ended n)
  with assms show ?thesis by (simp add: overlap_inv_def frames_since_ended)
next
  case (Message now msg)
  from assms have k: "k \<le> length (started st)" by (simp add: overlap_inv_def)
  show ?thesis
    using assms unfolding Message live_step.simps frames_since_step[OF k] overlap_inv_def
    by (auto simp: no_overlap_snoc split: model_audio.splits intro: max.coboundedI1)
qed

lemma overlap_inv_step:
  assumes "overlap_inv k st" and "uninterrupted [ev]"
  shows "overlap_inv k (live_step ev st)"
proof (cases ev)
  case (Ended n)
  with assms(1) show ?thesis by (simp add: overlap_inv_def frames_since_ended on_ended_same)
next
  case (Message now msg)
  with assms(2) have ni: "\<not> interrupted msg" by simp
  from assms(1) have k: "k \<le> length (started st)" by (simp add: overlap_inv_def)
  have k': "k \<le> length (started (fst (onmessage now msg st)))"
    using k by (simp add: onmessage_started)
  have f: "no_overlap (frames_since k (fst (onmessage now msg st)))"
    using overlap_frames_step[OF assms(1), of ev] unfolding Message by simp
  have e: "frames_since k (fst (onmessage now msg st)) \<noteq> [] \<longrightarrow>
            start (last (frames_since k (fst (onmessage now msg st))))
              + duration (last (frames_since k (fst (onmessage now msg st))))
              \<le> nextStartTime (fst (onmessage now msg st))"
    using assms(1) unfolding frames_since_step[OF k] onmessage_next[OF ni] overlap_inv_def
    by (auto split: model_audio.splits intro: max.coboundedI1)
  show ?thesis
    unfolding Message live_step.simps overlap_inv_def using k' f e by blast
qed

lemma overlap_inv_run:
  assumes "overlap_inv k st" and "uninterrupted evs"
  shows "overlap_inv k (live_run evs st)"
  using assms
proof (induction evs arbitrary: st)
  case Nil
  then show ?case by simp
next
  case (Cons ev evs)
  from Cons.prems(2) have "uninterrupted [ev]" "uninterrupted evs"
    by (cases ev; simp)+
  then show ?case
    using Cons.IH overlap_inv_step[OF Cons.prems(1)] by simp
qed

lemma overlap_inv_start: "overlap_inv (length (started st)) st"
  by (simp add: overlap_inv_def frames_since_def)


lemma sched_frames_step:
  assumes "sched_inv k t0 (ev # rest) st"
  shows "back_to_back (frames_since k (live_step ev st))
         \<and> (frames_since k (live_step ev st) \<noteq> [] \<longrightarrow>
               start (hd (frames_since k (live_step ev st)))
                 = max t0 (clock (hd (frames_since k (live_step ev st)))))"
proof (cases ev)
  case (Ended n)
  with assms show ?thesis by (simp add: sched_inv_def Let_def frames_since_ended)
next
  case (Message now msg)
  from assms have k: "k \<le> length (started st)" by (simp add: sched_inv_def Let_def)
  let ?fs = "frames_since k st"
  let ?base = "if ?fs = [] then t0 else start (last ?fs) + duration (last ?fs)"
  from assms have b: "back_to_back ?fs" and lo: "?base \<le> nextStartTime st"
    and hi: "nextStartTime st \<le> max ?base now"
    and h: "?fs \<noteq> [] \<longrightarrow> start (hd ?fs) = max t0 (clock (hd ?fs))"
    unfolding Message sched_inv_def Let_def by simp_all
  have m: "max (nextStartTime st) now = max ?base now"
    using lo hi by (simp add: max_def split: if_splits)
  show ?thesis
  proof (cases "\<exists>d. audio msg = Frame d \<and> audioContext st")
    case True
    then obtain d where d: "audio msg = Frame d" "audioContext st" by blast
    show ?thesis
      unfolding Message live_step.simps
      using b h m d by (cases "?fs = []") (simp_all add: frames_since_step[OF k] back_to_back_snoc)
  next
    case False
    then have "frames_since k (fst (onmessage now msg st)) = ?fs"
      unfolding frames_since_step[OF k] by (auto split: model_audio.splits)
    then show ?thesis unfolding Message live_step.simps using b h by simp
  qed
qed

lemma sched_inv_step:
  assumes "sched_inv k t0 (ev # rest) st" and "uninterrupted [ev]" and "sorted (clocks (ev # rest))"
  shows "sched_inv k t0 rest (live_step ev st)"
proof (cases ev)
  case (Ended n)
  with assms(1) show ?thesis
    by (simp add: sched_inv_def Let_def frames_since_ended on_ended_same)
next
  case (Message now msg)
  with assms(2) have ni: "\<not> interrupted msg" by simp
  from assms(1) have k: "k \<le> length (started st)" by (simp add: sched_inv_def Let_def)
  let ?fs = "frames_since k st"
  let ?base = "if ?fs = [] then t0 else start (last ?fs) + duration (last ?fs)"
  let ?st' = "fst (onmessage now msg st)"
  let ?fs' = "frames_since k ?st'"
  let ?base' = "if ?fs' = [] then t0 else start (last ?fs') + duration (last ?fs')"
  from assms(1) have lo: "?base \<le> nextStartTime st"
    and hi: "nextStartTime st \<le> max ?base now"
    and later: "\<forall>t \<in> set (clocks rest). nextStartTime st \<le> max ?base t"
    unfolding Message sched_inv_def Let_def by simp_all
  have mono: "\<forall>t \<in> set (clocks rest). now \<le> t"
    using assms(3) unfolding Message by simp
  have k': "k \<le> length (started ?st')"
    using k by (simp add: onmessage_started)
  note fr = sched_frames_step[OF assms(1), unfolded Message live_step.simps]
  have same: "?base' \<le> nextStartTime ?st'
                \<and> (\<forall>t \<in> set (clocks rest). nextStartTime ?st' \<le> max ?base' t)"
    if "?fs' = ?fs" "nextStartTime ?st' = nextStartTime st"
    unfolding that using lo later by blast
  have bounds: "?base' \<le> nextStartTime ?st'
                \<and> (\<forall>t \<in> set (clocks rest). nextStartTime ?st' \<le> max ?base' t)"
  proof (cases "\<exists>d. audio msg = Frame d \<and> audioContext st")
    case True
    then obtain d where d: "audio msg = Frame d" "audioContext st" by blast
    have "?fs' \<noteq> []" "last ?fs' = \<lparr>node = created st, clock = now,
                                     start = max (nextStartTime st) now, duration = d\<rparr>"
      using d by (simp_all add: frames_since_step[OF k])
    moreover have "nextStartTime ?st' = max (nextStartTime st) now + d"
      using d by (simp add: onmessage_next[OF ni])
    ultimately show ?thesis by simp
  next
    case False
    then have fsame: "?fs' = ?fs"
      unfolding frames_since_step[OF k] by (auto split: model_audio.splits)
    show ?thesis
    proof (cases "audio msg = Undecodable \<and> audioContext st")
      case True
      then have n: "nextStartTime ?st' = max (nextStartTime st) now"
        by (simp add: onmessage_next[OF ni])
      have "max (nextStartTime st) now \<le> max ?base t" if "t \<in> set (clocks rest)" for t
      proof -
        have "now \<le> t" using mono that by blast
        moreover have "nextStartTime st \<le> max ?base t" using later that by blast
        ultimately show ?thesis by (simp add: max.coboundedI2)
      qed
      moreover have "?base \<le> max (nextStartTime st) now"
        using lo by (rule max.coboundedI1)
      ultimately show ?thesis unfolding fsame n by blast
    next
      case False
      with \<open>\<not> (\<exists>d. audio msg = Frame d \<and> audioContext st)\<close>
      have "nextStartTime ?st' = nextStartTime st"
        unfolding onmessage_next[OF ni] by (auto split: model_audio.splits)
      with fsame show ?thesis by (rule same)
    qed
  qed
  show ?thesis
    unfolding Message live_step.simps sched_inv_def Let_def
    using k' fr bounds by blast
qed

lemma sched_inv_run:
  assumes "sched_inv k t0 (evs @ rest) st" and "uninterrupted evs"
      and "sorted (clocks (evs @ rest))"
  shows "sched_inv k t0 rest (live_run evs st)"
  using assms
proof (induction evs arbitrary: st)
  case Nil
  then show ?case by simp
next
  case (Cons ev evs)
  from Cons.prems(2) have u: "uninterrupted [ev]" "uninterrupted evs"
    by (cases ev; simp)+
  have s: "sorted (clocks (evs @ rest))"
    using Cons.prems(3) by (cases ev) simp_all
  have "sched_inv k t0 (evs @ rest) (live_step ev st)"
    using sched_inv_step[of k t0 ev "evs @ rest" st] Cons.prems(1,3) u(1) by simp
  then show ?case
    using Cons.IH u(2) s by simp
qed

lemma sched_inv_start: "sched_inv (length (started st)) (nextStartTime st) rest st"
  by (simp add: sched_inv_def frames_since_def)


text \<open>
  Claim C7, as the code has it.  Take the session in any state, and any sequence of
  messages and \<open>ended\<close> events of which none but the last carries the interruption flag;
  \<open>fs\<close> are the frames scheduled by the sequence, in order.  Each of them after the
  first starts no earlier than the frame before it ends, and no earlier than the clock
  reading taken for it.  If the clock readings of the messages never decrease, each
  frame after the first starts at the later of its clock reading and the end (start
  plus duration) of the frame before it, and the first one at the later of its clock
  reading and the value \<open>nextStartTime\<close> had before the sequence.  Messages without
  audio, and messages whose audio does not decode, may come between the frames.
\<close>

theorem gapless_playback:
  assumes "uninterrupted (butlast evs)"
      and "fs = drop (length (started st)) (started (live_run evs st))"
  shows "(\<forall>n. Suc n < length fs \<longrightarrow>
            start (fs ! n) + duration (fs ! n) \<le> start (fs ! Suc n)
          \<and> clock (fs ! Suc n) \<le> start (fs ! Suc n))
         \<and> (sorted (clocks evs) \<longrightarrow>
              (\<forall>n. Suc n < length fs \<longrightarrow>
                 start (fs ! Suc n) = max (start (fs ! n) + duration (fs ! n)) (clock (fs ! Suc n)))
              \<and> (fs \<noteq> [] \<longrightarrow> start (fs ! 0) = max (nextStartTime st) (clock (fs ! 0))))"
proof (cases "evs = []")
  case True
  then show ?thesis using assms(2) by simp
next
  case False
  let ?k = "length (started st)"
  let ?es = "butlast evs" and ?e = "last evs"
  have evs: "evs = ?es @ [?e]" using False by simp
  have run: "live_run evs st = live_step ?e (live_run ?es st)"
    by (subst evs) (simp add: live_run_append)
  have fs: "fs = frames_since ?k (live_step ?e (live_run ?es st))"
    unfolding assms(2) run frames_since_def ..
  have "overlap_inv ?k (live_run ?es st)"
    using overlap_inv_start assms(1) by (rule overlap_inv_run)
  then have no: "no_overlap fs"
    unfolding fs by (rule overlap_frames_step)
  have part1: "start (fs ! n) + duration (fs ! n) \<le> start (fs ! Suc n)
          \<and> clock (fs ! Suc n) \<le> start (fs ! Suc n)" if "Suc n < length fs" for n
    using no that by (rule no_overlap_nth)
  have part2: "(\<forall>n. Suc n < length fs \<longrightarrow>
                 start (fs ! Suc n) = max (start (fs ! n) + duration (fs ! n)) (clock (fs ! Suc n)))
              \<and> (fs \<noteq> [] \<longrightarrow> start (fs ! 0) = max (nextStartTime st) (clock (fs ! 0)))"
    if sorted: "sorted (clocks evs)"
  proof -
    have s0: "sched_inv ?k (nextStartTime st) (?es @ [?e]) st"
      by (rule sched_inv_start)
    have "sorted (clocks (?es @ [?e]))" using sorted evs by simp
    with s0 assms(1) have "sched_inv ?k (nextStartTime st) [?e] (live_run ?es st)"
      by (rule sched_inv_run)
    then have b: "back_to_back fs"
      and h: "fs \<noteq> [] \<longrightarrow> start (hd fs) = max (nextStartTime st) (clock (hd fs))"
      unfolding fs using sched_frames_step by blast+
    have "start (fs ! Suc n) = max (start (fs ! n) + duration (fs ! n)) (clock (fs ! Suc n))"
      if "Suc n < length fs" for n
      using b that by (rule back_to_back_nth)
    moreover have "start (fs ! 0) = max (nextStartTime st) (clock (fs ! 0))" if "fs \<noteq> []"
      using h that by (simp add: hd_conv_nth)
    ultimately show ?thesis by blast
  qed
  from part1 part2 show ?thesis by blast
qed

lemmas live_example_simps =
  startSession_def idle_live_def audio_frame_def barge_in_signal_def bad_frame_def
  onmessage_def on_ended_def Let_def Error_def

lemma before_recovery_run:
  "started (live_run before_recovery (startSession 0 0 idle_live)) =
     [\<lparr>node = 0, clock = 1, start = 1, duration = 5\<rparr>]
   \<and> nextStartTime (live_run before_recovery (startSession 0 0 idle_live)) = 0"
  by (simp add: before_recovery_def live_example_simps)

lemma after_recovery_run:
  "started (live_run after_recovery (live_run before_recovery (startSession 0 0 idle_live))) =
     [\<lparr>node = 0, clock = 1, start = 1, duration = 5\<rparr>,
      \<lparr>node = 1, clock = 3, start = 3, duration = 5\<rparr>,
      \<lparr>node = 2, clock = 5, start = 8, duration = 2\<rparr>]"
  by (simp add: after_recovery_def before_recovery_def live_example_simps)

theorem gapless_playback_witness:
  "uninterrupted (butlast after_recovery)
   \<and> sorted (clocks after_recovery)
   \<and> map start
        (drop (length (started (live_run before_recovery (startSession 0 0 idle_live))))
           (started (live_run after_recovery
                       (live_run before_recovery (startSession 0 0 idle_live))))) = [3, 8]
   \<and> (8::real) = max (3 + 5) 5
   \<and> (3::real) = max 0 3"
proof -
  let ?st = "live_run before_recovery (startSession 0 0 idle_live)"
  let ?fs = "drop (length (started ?st)) (started (live_run after_recovery ?st))"
  have u: "uninterrupted (butlast after_recovery)"
    by (simp add: after_recovery_def audio_frame_def bad_frame_def)
  have s: "sorted (clocks after_recovery)"
    by (simp add: after_recovery_def)
  have fs: "?fs = [\<lparr>node = 1, clock = 3, start = 3, duration = 5\<rparr>,
                   \<lparr>node = 2, clock = 5, start = 8, duration = 2\<rparr>]"
    using before_recovery_run after_recovery_run by simp
  note g = gapless_playback[OF u refl, of ?st]
  from g s have "start (?fs ! Suc 0) = max (start (?fs ! 0) + duration (?fs ! 0)) (clock (?fs ! Suc 0))"
    unfolding fs by simp
  moreover from g s have "start (?fs ! 0) = max (nextStartTime ?st) (clock (?fs ! 0))"
    unfolding fs by simp
  ultimately show ?thesis
    using u s unfolding fs using before_recovery_run by simp
qed

text \<open>
  Claim C7 as stated fails: between two frames of one open session an interruption can
  be handled, which sets \<open>nextStartTime\<close> to 0.  A frame of duration 5 scheduled at
  clock 1, an interruption at clock 2 and a frame at clock 3 give the start times 1
  and 3: the second frame starts before the end 6 of the first, and not at the later
  of its clock reading and that end.
\<close>

theorem gapless_playback_counterexample:
  "map start (started (live_run interrupted_frames (startSession 0 0 idle_live))) = [1, 3]
   \<and> map duration (started (live_run interrupted_frames (startSession 0 0 idle_live))) = [5, 5]
   \<and> map clock (started (live_run interrupted_frames (startSession 0 0 idle_live))) = [1, 3]
   \<and> start (started (live_run interrupted_frames (startSession 0 0 idle_live)) ! Suc 0)
       < start (started (live_run interrupted_frames (startSession 0 0 idle_live)) ! 0)
         + duration (started (live_run interrupted_frames (startSession 0 0 idle_live)) ! 0)
   \<and> start (started (live_run interrupted_frames (startSession 0 0 idle_live)) ! Suc 0)
       \<noteq> max (start (started (live_run interrupted_frames (startSession 0 0 idle_live)) ! 0)
              + duration (started (live_run interrupted_frames (startSession 0 0 idle_live)) ! 0))
             (clock (started (live_run interrupted_frames (startSession 0 0 idle_live)) ! Suc 0))"
  by (simp add: interrupted_frames_def live_example_simps)


text \<open>
  When the callback runs to its end on a message with the interruption flag, the set of
  scheduled sources is empty, \<open>stop\<close> has been called on every source that was in the
  set (and on the one this very message may have scheduled), and \<open>nextStartTime\<close> is 0.
\<close>

lemma barge_in_completed:
  assumes "interrupted msg" and "snd (onmessage now msg st) = None"
  shows "sources (fst (onmessage now msg st)) = []
         \<and> nextStartTime (fst (onmessage now msg st)) = 0
         \<and> stopped (fst (onmessage now msg st)) =
             stopped st @ sources st
               @ (case audio msg of
                    Frame d \<Rightarrow> if audioContext st then [created st] else []
                  | _ \<Rightarrow> [])"
  using assms
  by (simp add: onmessage_def Let_def split: model_audio.splits option.splits if_splits)

lemma three_frames_run:
  "sources (live_run three_frames (startSession 0 0 idle_live)) = [1, 2]
   \<and> stopped (live_run three_frames (startSession 0 0 idle_live)) = []
   \<and> nextStartTime (live_run three_frames (startSession 0 0 idle_live)) = 23"
  by (simp add: three_frames_def live_example_simps)

text \<open>
  Claim C8 (the code departs from it).  The interruption is handled at the end of the
  callback, after the audio of the same message; when reading the audio throws, the
  interruption is not handled at all.  After three frames, of which the sources 1 and 2
  are still in the set and \<open>nextStartTime\<close> is 23, a message with the interruption flag
  whose model turn has no \<open>parts\<close> leaves the state as it was: no source is stopped, the
  set still holds 1 and 2, and \<open>nextStartTime\<close> is still 23.  The same holds for a
  message with the interruption flag whose audio does not decode.
\<close>

theorem barge_in_skipped:
  "interrupted barge_in_without_parts
   \<and> sources (live_run three_frames (startSession 0 0 idle_live)) = [1, 2]
   \<and> onmessage 21 barge_in_without_parts (live_run three_frames (startSession 0 0 idle_live)) =
       (live_run three_frames (startSession 0 0 idle_live),
        Some (Error ''Cannot read properties of undefined''))
   \<and> sources (fst (onmessage 21 barge_in_without_parts
                      (live_run three_frames (startSession 0 0 idle_live)))) = [1, 2]
   \<and> stopped (fst (onmessage 21 barge_in_without_parts
                      (live_run three_frames (startSession 0 0 idle_live)))) = []
   \<and> nextStartTime (fst (onmessage 21 barge_in_without_parts
                            (live_run three_frames (startSession 0 0 idle_live)))) = 23
   \<and> interrupted barge_in_with_bad_frame
   \<and> snd (onmessage 21 barge_in_with_bad_frame
             (live_run three_frames (startSession 0 0 idle_live))) =
       Some (Error ''The audio data cannot be decoded'')
   \<and> sources (fst (onmessage 21 barge_in_with_bad_frame
                      (live_run three_frames (startSession 0 0 idle_live)))) = [1, 2]
   \<and> stopped (fst (onmessage 21 barge_in_with_bad_frame
                      (live_run three_frames (startSession 0 0 idle_live)))) = []
   \<and> nextStartTime (fst (onmessage 21 barge_in_with_bad_frame
                            (live_run three_frames (startSession 0 0 idle_live)))) = 23"
  by (simp add: three_frames_def barge_in_without_parts_def barge_in_with_bad_frame_def
        live_example_simps)

subsection \<open>Shape of loaded and merged profiles\<close>

lemma arrayOrEmpty_is_array: "\<exists>xs. arrayOrEmpty json k = JArr xs"
  by (simp add: arrayOrEmpty_def split: option.splits json.splits)

lemma sanitizedProfile_six_lists:
  assumes "sanitizedProfile now json = Inr p"
  shows "six_lists p"
proof -
  obtain a b c d e f where
    "arrayOrEmpty json ''values'' = JArr a" "arrayOrEmpty json ''personalityTraits'' = JArr b"
    "arrayOrEmpty json ''mentalModels'' = JArr c" "arrayOrEmpty json ''workHabits'' = JArr d"
    "arrayOrEmpty json ''decisionPrinciples'' = JArr e" "arrayOrEmpty json ''interests'' = JArr f"
    using arrayOrEmpty_is_array by metis
  with assms show ?thesis
    by (auto simp: sanitizedProfile_def six_lists_def categories_def is_list_def get_prop_def
             split: if_splits)
qed

lemma sanitizedProfile_idempotent:
  assumes "sanitizedProfile now json = Inr p"
  shows "sanitizedProfile now p = Inr p"
proof -
  obtain a b c d e f where arr:
    "arrayOrEmpty json ''values'' = JArr a" "arrayOrEmpty json ''personalityTraits'' = JArr b"
    "arrayOrEmpty json ''mentalModels'' = JArr c" "arrayOrEmpty json ''workHabits'' = JArr d"
    "arrayOrEmpty json ''decisionPrinciples'' = JArr e" "arrayOrEmpty json ''interests'' = JArr f"
    using arrayOrEmpty_is_array by metis
  define u where "u = (case get_prop json ''lastUpdated'' of
                              Some v \<Rightarrow> if truthy v then v else JStr now
                            | None \<Rightarrow> JStr now)"
  have p: "p = JObj [(''values'', JArr a), (''personalityTraits'', JArr b),
                     (''mentalModels'', JArr c), (''workHabits'', JArr d),
                     (''decisionPrinciples'', JArr e), (''interests'', JArr f),
                     (''lastUpdated'', u)]"
    using assms arr unfolding sanitizedProfile_def u_def by (simp split: if_splits)
  have u: "(if truthy u then u else JStr now) = u"
    unfolding u_def by (auto split: option.splits)
  show ?thesis
    unfolding p sanitizedProfile_def using u
    by (simp add: arrayOrEmpty_def get_prop_def)
qed

lemma handleFileChange_six_lists:
  "handleFileChange fileText now confirmLoad = Some p \<Longrightarrow> six_lists p"
  by (auto simp: handleFileChange_def sanitizedProfile_six_lists split: sum.splits if_splits)

text \<open>
  Claim C2 (the code departs from it).  The import of a file hands on only sanitised
  profiles, all six fields of which are lists (\<open>handleFileChange_six_lists\<close>), and
  sanitising is idempotent (\<open>sanitizedProfile_idempotent\<close>); but the load from local
  storage at start-up installs the parsed blob as it is.  For the stored text
  \<^verbatim>\<open>{"values":["candour"],"lastUpdated":"2024"}\<close> the loaded profile has no field
  \<open>interests\<close> and is not of the shape of six lists, where sanitising the same value
  would have set the five missing fields to empty lists.
\<close>

theorem loadProfile_unsanitized:
  "loadProfile (Some (Inr (JObj [(''values'', JArr [JStr ''candour'']),
                                 (''lastUpdated'', JStr ''2024'')]))) INITIAL_PROFILE
     = JObj [(''values'', JArr [JStr ''candour'']), (''lastUpdated'', JStr ''2024'')]
   \<and> get_prop (loadProfile (Some (Inr (JObj [(''values'', JArr [JStr ''candour'']),
                                              (''lastUpdated'', JStr ''2024'')]))) INITIAL_PROFILE)
        ''interests'' = None
   \<and> \<not> six_lists (loadProfile (Some (Inr (JObj [(''values'', JArr [JStr ''candour'']),
                                                  (''lastUpdated'', JStr ''2024'')])))
                      INITIAL_PROFILE)
   \<and> sanitizedProfile ''now'' (JObj [(''values'', JArr [JStr ''candour'']),
                                      (''lastUpdated'', JStr ''2024'')])
       = Inr (JObj [(''values'', JArr [JStr ''candour'']), (''personalityTraits'', JArr []),
                    (''mentalModels'', JArr []), (''workHabits'', JArr []),
                    (''decisionPrinciples'', JArr []), (''interests'', JArr []),
                    (''lastUpdated'', JStr ''2024'')])"
  by (simp add: loadProfile_def six_lists_def categories_def is_list_def get_prop_def
        sanitizedProfile_def arrayOrEmpty_def)

lemma analyzeProfile_returns_parsed:
  assumes "apiKey = Some key" "key \<noteq> []" "flash 0 = Inr (Some (Inr j))"
  shows "analyzeProfile apiKey flash pro = (Inr j, [Attempt 0])"
  using assms
  by (simp add: analyzeProfile_def runAnalysis_def retryOperation.simps)

text \<open>
  Claim C3 (the code departs from it).  \<open>analyzeProfile\<close> returns what \<open>JSON.parse\<close> makes
  of the completion, unchanged (\<open>analyzeProfile_returns_parsed\<close>).  For the completion
  \<^verbatim>\<open>{"values":["candour"]}\<close> the call succeeds, and the profile it returns has no field
  \<open>interests\<close> (nor four of the others): the missing fields are not set to empty lists.
\<close>

theorem analyzeProfile_missing_field:
  "fst (analyzeProfile (Some ''key'')
          (\<lambda>k. Inr (Some (Inr (JObj [(''values'', JArr [JStr ''candour''])]))))
          (Inr None))
     = Inr (JObj [(''values'', JArr [JStr ''candour''])])
   \<and> get_prop (JObj [(''values'', JArr [JStr ''candour''])]) ''interests'' = None
   \<and> \<not> six_lists (JObj [(''values'', JArr [JStr ''candour''])])"
  by (simp add: analyzeProfile_returns_parsed six_lists_def categories_def is_list_def get_prop_def)

subsection \<open>Decision snapshots\<close>






lemma fields_below:
  "(\<forall>key. field_at key p < n) =
     (values_at p < n \<and> personalityTraits_at p < n \<and> mentalModels_at p < n
      \<and> workHabits_at p < n \<and> decisionPrinciples_at p < n \<and> interests_at p < n)"
proof
  assume a: "\<forall>key. field_at key p < n"
  show "values_at p < n \<and> personalityTraits_at p < n \<and> mentalModels_at p < n
      \<and> workHabits_at p < n \<and> decisionPrinciples_at p < n \<and> interests_at p < n"
    using a[rule_format, of Values] a[rule_format, of PersonalityTraits]
      a[rule_format, of MentalModels] a[rule_format, of WorkHabits]
      a[rule_format, of DecisionPrinciples] a[rule_format, of Interests]
    by simp
next
  assume a: "values_at p < n \<and> personalityTraits_at p < n \<and> mentalModels_at p < n
      \<and> workHabits_at p < n \<and> decisionPrinciples_at p < n \<and> interests_at p < n"
  show "\<forall>key. field_at key p < n"
  proof
    fix key show "field_at key p < n" using a by (cases key) simp_all
  qed
qed


































end
